theory Spec2Isabelle
  imports Main "HOL-Library.Sublist"
begin

section \<open>Strings\<close>

text \<open>
  A JavaScript string is a sequence of UTF-16 code units. The model uses \<^typ>\<open>string\<close>,
  reading each \<^typ>\<open>char\<close> as the code unit with the same number (0 to 255), so it covers
  the texts whose code units all lie below 256. The character classes below are the
  ECMAScript ones cut down to that range: white space (\<open>\s\<close> of a regular expression and
  what \<open>String.prototype.trim\<close> strips) is TAB, LF, VT, FF, CR, SPACE and NBSP;
  the line terminators (which \<open>.\<close> does not match) are LF and CR.
\<close>

definition isWhiteSpace :: "char \<Rightarrow> bool" where
  "isWhiteSpace c = (let n = (of_char c :: nat) in (9 \<le> n \<and> n \<le> 13) \<or> n = 32 \<or> n = 160)"

definition isLineTerminator :: "char \<Rightarrow> bool" where
  "isLineTerminator c = (let n = (of_char c :: nat) in n = 10 \<or> n = 13)"

text \<open>\<open>String.prototype.trim\<close>: white space is removed at both ends.\<close>

definition trim :: "string \<Rightarrow> string" where
  "trim s = rev (dropWhile isWhiteSpace (rev (dropWhile isWhiteSpace s)))"

text \<open>
  \<open>String.prototype.toLowerCase\<close>, code unit by code unit: A to Z and the capital
  letters of the Latin-1 block (0xC0 to 0xDE without the multiplication sign 0xD7) move
  up by 32.
\<close>

definition toLowerCase_char :: "char \<Rightarrow> char" where
  "toLowerCase_char c =
     (let n = (of_char c :: nat)
      in if (65 \<le> n \<and> n \<le> 90) \<or> (192 \<le> n \<and> n \<le> 222 \<and> n \<noteq> 215) then char_of (n + 32) else c)"

definition toLowerCase :: "string \<Rightarrow> string" where
  "toLowerCase s = map toLowerCase_char s"

text \<open>\<open>String.prototype.includes\<close>: the argument occurs as a contiguous piece.\<close>

definition str_includes :: "string \<Rightarrow> string \<Rightarrow> bool" where
  "str_includes s pat = sublist pat s"

text \<open>
  The \<open>Canonicalize\<close> operation of a regular expression with the \<open>i\<close> flag (and without
  the \<open>u\<close> flag): a code unit is replaced by its upper-case form when that is a single
  code unit, and a code unit of 128 or more is never mapped below 128. In the range
  modelled, a to z and 0xE0 to 0xFE (without the division sign 0xF7) move down by 32; the
  upper-case forms of 0xB5 and 0xFF lie beyond 255 and are shared with no code unit
  below 256, so both stay as they are.
\<close>

definition canonicalize :: "char \<Rightarrow> char" where
  "canonicalize c =
     (let n = (of_char c :: nat)
      in if (97 \<le> n \<and> n \<le> 122) \<or> (224 \<le> n \<and> n \<le> 254 \<and> n \<noteq> 247) then char_of (n - 32) else c)"

section \<open>Backtracking matchers for the regular expressions of the source\<close>

text \<open>
  A matcher takes the text from the current position on and returns \<open>None\<close> (no match)
  or the result of the continuation \<open>k\<close>, which stands for the rest of the pattern. The
  combinators try their choices in the order of the ECMAScript backtracking matcher, and
  fall back to the next choice when the continuation fails.
\<close>

text \<open>A literal, compared after \<open>Canonicalize\<close> (flag \<open>i\<close>).\<close>

fun lit_ci :: "string \<Rightarrow> (string \<Rightarrow> 'a option) \<Rightarrow> string \<Rightarrow> 'a option" where
  "lit_ci [] k s = k s"
| "lit_ci (p # ps) k [] = None"
| "lit_ci (p # ps) k (c # cs) = (if canonicalize p = canonicalize c then lit_ci ps k cs else None)"

text \<open>A disjunction \<open>a|b|c\<close> of literals: the alternatives from left to right.\<close>

fun alt_ci :: "string list \<Rightarrow> (string \<Rightarrow> 'a option) \<Rightarrow> string \<Rightarrow> 'a option" where
  "alt_ci [] k s = None"
| "alt_ci (a # as) k s = (case lit_ci a k s of Some r \<Rightarrow> Some r | None \<Rightarrow> alt_ci as k s)"

text \<open>An optional group \<open>(?:a|b|c)?\<close>, greedy: first with the group, then without it.\<close>

definition opt_alt_ci :: "string list \<Rightarrow> (string \<Rightarrow> 'a option) \<Rightarrow> string \<Rightarrow> 'a option" where
  "opt_alt_ci as k s = (case alt_ci as k s of Some r \<Rightarrow> Some r | None \<Rightarrow> k s)"

text \<open>
  A greedy star \<open>C*\<close> over a character class: one more character first, and the
  continuation at the current position only when that fails.
\<close>

fun star_greedy :: "(char \<Rightarrow> bool) \<Rightarrow> (string \<Rightarrow> 'a option) \<Rightarrow> string \<Rightarrow> 'a option" where
  "star_greedy P k [] = k []"
| "star_greedy P k (c # cs) =
     (if P c then (case star_greedy P k cs of Some r \<Rightarrow> Some r | None \<Rightarrow> k (c # cs))
      else k (c # cs))"

text \<open>
  Capturing groups: the continuation returns the text left after the whole match, and
  the group returns the characters it consumed together with it. \<open>cap_star_lazy\<close> is
  \<open>(C*?)\<close>: the continuation first, one more character only when it fails.
  \<open>cap_star_greedy\<close> is \<open>(C*)\<close> and \<open>cap_plus_greedy\<close> is \<open>(C+)\<close>.
\<close>

fun cap_star_lazy :: "(char \<Rightarrow> bool) \<Rightarrow> (string \<Rightarrow> string option) \<Rightarrow> string \<Rightarrow> (string \<times> string) option" where
  "cap_star_lazy P k [] = map_option (Pair []) (k [])"
| "cap_star_lazy P k (c # cs) =
     (case k (c # cs) of
        Some r \<Rightarrow> Some ([], r)
      | None \<Rightarrow> if P c then map_option (\<lambda>(cap, r). (c # cap, r)) (cap_star_lazy P k cs) else None)"

fun cap_star_greedy :: "(char \<Rightarrow> bool) \<Rightarrow> (string \<Rightarrow> string option) \<Rightarrow> string \<Rightarrow> (string \<times> string) option" where
  "cap_star_greedy P k [] = map_option (Pair []) (k [])"
| "cap_star_greedy P k (c # cs) =
     (if P c
      then (case cap_star_greedy P k cs of
              Some (cap, r) \<Rightarrow> Some (c # cap, r)
            | None \<Rightarrow> map_option (Pair []) (k (c # cs)))
      else map_option (Pair []) (k (c # cs)))"

fun cap_plus_greedy :: "(char \<Rightarrow> bool) \<Rightarrow> (string \<Rightarrow> string option) \<Rightarrow> string \<Rightarrow> (string \<times> string) option" where
  "cap_plus_greedy P k [] = None"
| "cap_plus_greedy P k (c # cs) =
     (if P c then map_option (\<lambda>(cap, r). (c # cap, r)) (cap_star_greedy P k cs) else None)"

text \<open>
  A pattern that is not anchored is tried at the current position, then one character
  further, and so on up to the end of the text: the leftmost match wins.
\<close>

fun leftmost :: "(string \<Rightarrow> 'a option) \<Rightarrow> string \<Rightarrow> 'a option" where
  "leftmost m [] = m []"
| "leftmost m (c # cs) = (case m (c # cs) of Some r \<Rightarrow> Some r | None \<Rightarrow> leftmost m cs)"

subsection \<open>The four patterns\<close>

text \<open>
  \<^verbatim>\<open>/```(?:mermaid|flowchart|text|sequenceDiagram)?\s*([\s\S]*?)```/gi\<close> at one position:
  the captured group and the text after the match.
\<close>

definition fence_hints :: "string list" where
  "fence_hints = [''mermaid'', ''flowchart'', ''text'', ''sequenceDiagram'']"

definition mermaidRegex_at :: "string \<Rightarrow> (string \<times> string) option" where
  "mermaidRegex_at =
     lit_ci ''```''
       (opt_alt_ci fence_hints
          (star_greedy isWhiteSpace
             (cap_star_lazy (\<lambda>c. True) (lit_ci ''```'' Some))))"

text \<open>\<^verbatim>\<open>/\[CONCEPTUAL_VISUAL:\s*([^\]]+)\]/gi\<close> at one position.\<close>

definition conceptualRegex_at :: "string \<Rightarrow> (string \<times> string) option" where
  "conceptualRegex_at =
     lit_ci ''[CONCEPTUAL_VISUAL:''
       (star_greedy isWhiteSpace
          (cap_plus_greedy (\<lambda>c. c \<noteq> CHR '']'') (lit_ci '']'' Some)))"

text \<open>
  \<^verbatim>\<open>/^(graph|flowchart|sequenceDiagram|classDiagram|stateDiagram|erDiagram|gantt|pie|gitGraph|journey|C4Context)/i\<close>,
  as used by \<open>content.match(...)\<close>: anchored at the start, the result is only tested for
  being a match.
\<close>

definition diagram_keywords :: "string list" where
  "diagram_keywords =
     [''graph'', ''flowchart'', ''sequenceDiagram'', ''classDiagram'', ''stateDiagram'',
      ''erDiagram'', ''gantt'', ''pie'', ''gitGraph'', ''journey'', ''C4Context'']"

definition keyword_match :: "string \<Rightarrow> bool" where
  "keyword_match content = (alt_ci diagram_keywords Some content \<noteq> None)"

text \<open>
  \<^verbatim>\<open>/(give|write|show).*(code|answer|solution|full)/i\<close>, as used by \<open>cheatRegex.test\<close>
  (no \<open>g\<close> flag, so every call starts at the beginning of the text).
\<close>

definition cheatRegex_at :: "string \<Rightarrow> string option" where
  "cheatRegex_at =
     alt_ci [''give'', ''write'', ''show'']
       (star_greedy (\<lambda>c. \<not> isLineTerminator c)
          (alt_ci [''code'', ''answer'', ''solution'', ''full''] Some))"

definition cheatRegex_test :: "string \<Rightarrow> bool" where
  "cheatRegex_test s = (leftmost cheatRegex_at s \<noteq> None)"

section \<open>Data model\<close>

text \<open>
  The types of \<open>types.ts\<close> and the state of the \<open>App\<close> component. Identities and
  timestamps come from \<open>Date.now()\<close> and \<open>Math.random()\<close>; of an identity the model
  keeps the fixed prefix (\<open>mermaid-\<close>, \<open>img-\<close>, \<open>concept-\<close>), which tells where an
  item came from, and it leaves the timestamps out.
\<close>

datatype Role = User | Model | System

record Message =
  role :: Role
  msg_text :: string

datatype VisualType = Mermaid | Image

datatype IdPrefix = MermaidId | ImgId | ConceptId

record VisualItem =
  id_prefix :: IdPrefix
  item_type :: VisualType
  content :: string

datatype KnowledgeLevel = BEGINNER | INTERMEDIATE | ADVANCED

datatype PaneTab = VISUALIZER | TEMPLATES | UPLOAD | IMAGE_GEN

datatype MobileView = ChatView | WorkspaceView

datatype MentorStatus = Searching | Satisfied

subsection \<open>What the generative-language service returns\<close>

text \<open>
  A response holds optional candidates, a candidate an optional content, a content
  optional parts; a part may carry text, a function call and inline data. The arguments
  of a function call have the type the source casts them to,
  \<^verbatim>\<open>{ status: 'searching' | 'satisfied' }\<close>. A failed call rejects with an error
  object, of which the source reads \<open>status\<close> and \<open>message\<close>.
\<close>

record FunctionCall =
  fc_name :: string
  fc_status :: MentorStatus

record Blob =
  mimeType :: string
  blob_data :: string

record Part =
  part_text :: "string option"
  functionCall :: "FunctionCall option"
  inlineData :: "Blob option"

record Content =
  parts :: "Part list option"

record Candidate =
  cand_content :: "Content option"

record GenerateContentResponse =
  candidates :: "Candidate list option"

record ApiError =
  status :: "nat option"
  message :: "string option"

record ChatResponse =
  resp_text :: string
  mentorStatus :: "MentorStatus option"
  imagePart :: "string option"

subsection \<open>Collaborators and effects\<close>

text \<open>
  Every request to a collaborator and every write of the busy flag of image generation
  is appended to a trace: \<open>ChatRequest contents level\<close> for the chat request,
  \<open>ImageRequest model prompt size\<close> for a request to an image model (the second model is
  asked without a size), \<open>OpenSelectKey\<close> for the key selection, and
  \<open>SetIsGeneratingImage b\<close> for a write of the flag. Every call of a collaborator ends,
  with an answer (\<open>Inr\<close>) or with an error (\<open>Inl\<close>); the answer may depend on the
  request and on the moment it is made (the length of the trace so far).
  \<open>window.aistudio\<close> may be absent; when present, \<open>openSelectKey\<close> resolves or rejects.
\<close>

datatype Event =
    ChatRequest "(Role \<times> string) list" KnowledgeLevel
  | ImageRequest string string "string option"
  | OpenSelectKey
  | SetIsGeneratingImage bool

datatype AIStudio = AIStudio (openSelectKey_rejects: bool)

record Env =
  chat_generateContent :: "nat \<Rightarrow> (Role \<times> string) list \<Rightarrow> KnowledgeLevel \<Rightarrow> ApiError + GenerateContentResponse"
  image_generateContent :: "nat \<Rightarrow> string \<Rightarrow> string \<Rightarrow> ApiError + GenerateContentResponse"
  window_aistudio :: "AIStudio option"

text \<open>
  The state of the component that the two callbacks read or write (\<open>visualization\<close> is
  the item list of the feed; the template and image-form state is left out, the callbacks
  do not touch it), together with the trace.
\<close>

record World =
  messages :: "Message list"
  input :: string
  isLoading :: bool
  knowledgeLevel :: KnowledgeLevel
  activeTab :: PaneTab
  visualization :: "VisualItem list"
  mentorMode :: bool
  showToast :: bool
  toastMessage :: string
  mobileView :: MobileView
  isGeneratingImage :: bool
  trace :: "Event list"

section \<open>The service wrappers\<close>

text \<open>\<^verbatim>\<open>response.candidates?.[0]?.content?.parts\<close>\<close>

definition first_parts :: "GenerateContentResponse \<Rightarrow> Part list option" where
  "first_parts response =
     (case candidates response of
        None \<Rightarrow> None
      | Some [] \<Rightarrow> None
      | Some (candidate # _) \<Rightarrow>
          (case cand_content candidate of None \<Rightarrow> None | Some c \<Rightarrow> parts c))"

definition parts_or_empty :: "GenerateContentResponse \<Rightarrow> Part list" where
  "parts_or_empty response = (case first_parts response of None \<Rightarrow> [] | Some ps \<Rightarrow> ps)"

definition dataUrl :: "Blob \<Rightarrow> string" where
  "dataUrl b = ''data:'' @ mimeType b @ '';base64,'' @ blob_data b"

text \<open>The test of both \<open>catch\<close> blocks for a denied permission.\<close>

definition is403 :: "ApiError \<Rightarrow> bool" where
  "is403 e =
     (status e = Some 403
      \<or> (case message e of None \<Rightarrow> False | Some m \<Rightarrow> str_includes m ''403'')
      \<or> (case message e of None \<Rightarrow> False | Some m \<Rightarrow> str_includes m ''Permission denied''))"

subsection \<open>\<open>generateImage\<close>\<close>

fun extractImage_parts :: "Part list \<Rightarrow> string option" where
  "extractImage_parts [] = None"
| "extractImage_parts (p # ps) =
     (case inlineData p of Some b \<Rightarrow> Some (dataUrl b) | None \<Rightarrow> extractImage_parts ps)"

definition extractImage :: "GenerateContentResponse \<Rightarrow> string option" where
  "extractImage response = extractImage_parts (parts_or_empty response)"

text \<open>
  The high-quality model first; after a denied permission the flash model, and when
  that fails too the first error is thrown again. \<open>Inl\<close> is a rejected promise.
\<close>

definition generateImage :: "Env \<Rightarrow> World \<Rightarrow> string \<Rightarrow> string \<Rightarrow> (ApiError + string option) \<times> World" where
  "generateImage env w prompt imageSize =
     (let w1 = w\<lparr>trace := trace w @ [ImageRequest ''gemini-3-pro-image-preview'' prompt (Some imageSize)]\<rparr>
      in case image_generateContent env (length (trace w)) ''gemini-3-pro-image-preview'' prompt of
           Inr response \<Rightarrow> (Inr (extractImage response), w1)
         | Inl error \<Rightarrow>
             if is403 error
             then (let w2 = w1\<lparr>trace := trace w1 @ [ImageRequest ''gemini-2.5-flash-image'' prompt None]\<rparr>
                   in case image_generateContent env (length (trace w1)) ''gemini-2.5-flash-image'' prompt of
                        Inr fallbackResponse \<Rightarrow> (Inr (extractImage fallbackResponse), w2)
                      | Inl fallbackError \<Rightarrow> (Inl error, w2))
             else (Inl error, w1))"

subsection \<open>\<open>sendMessageToGemini\<close>\<close>

text \<open>
  \<^verbatim>\<open>parts?.filter(p => p.functionCall).map(p => p.functionCall)\<close>, then the loop that
  keeps the status of each \<open>updateMentorStatus\<close> call, a later one overwriting an
  earlier one.
\<close>

definition functionCalls_of :: "GenerateContentResponse \<Rightarrow> FunctionCall list option" where
  "functionCalls_of response = map_option (List.map_filter functionCall) (first_parts response)"

fun mentorStatus_loop :: "FunctionCall list \<Rightarrow> MentorStatus option \<Rightarrow> MentorStatus option" where
  "mentorStatus_loop [] ms = ms"
| "mentorStatus_loop (call # calls) ms =
     mentorStatus_loop calls (if fc_name call = ''updateMentorStatus'' then Some (fc_status call) else ms)"

text \<open>The loop over the parts that builds \<open>finalText\<close> and \<open>imagePart\<close>.\<close>

fun parts_loop :: "Part list \<Rightarrow> string \<times> string option \<Rightarrow> string \<times> string option" where
  "parts_loop [] acc = acc"
| "parts_loop (p # ps) (finalText, imagePart') =
     parts_loop ps
       ((case part_text p of Some t \<Rightarrow> if t \<noteq> [] then finalText @ t else finalText | None \<Rightarrow> finalText),
        (case inlineData p of Some b \<Rightarrow> Some (dataUrl b) | None \<Rightarrow> imagePart'))"

definition parse_response :: "GenerateContentResponse \<Rightarrow> ChatResponse" where
  "parse_response response =
     (let functionCalls = functionCalls_of response;
          mentorStatus' =
            (case functionCalls of
               None \<Rightarrow> None
             | Some calls \<Rightarrow> if length calls > 0 then mentorStatus_loop calls None else None);
          (finalText, imagePart') = parts_loop (parts_or_empty response) ([], None);
          finalText' =
            (case functionCalls of
               None \<Rightarrow> finalText
             | Some calls \<Rightarrow>
                 if length calls > 0 \<and> finalText = []
                 then ''I have updated my mentor status and am analyzing your logic further.''
                 else finalText)
      in \<lparr>resp_text = finalText', mentorStatus = mentorStatus', imagePart = imagePart'\<rparr>)"

definition sendMessageToGemini ::
  "Env \<Rightarrow> World \<Rightarrow> (Role \<times> string) list \<Rightarrow> string \<Rightarrow> KnowledgeLevel \<Rightarrow> (ApiError + ChatResponse) \<times> World" where
  "sendMessageToGemini env w history currentMessage level =
     (let contents = history @ [(User, currentMessage)];
          w1 = w\<lparr>trace := trace w @ [ChatRequest contents level]\<rparr>
      in case chat_generateContent env (length (trace w)) contents level of
           Inl e \<Rightarrow> (Inl e, w1)
         | Inr response \<Rightarrow> (Inr (parse_response response), w1))"

section \<open>\<open>extractVisualization\<close>\<close>

text \<open>
  The \<open>while\<close> loop over \<open>mermaidRegex.exec(text)\<close>. With the \<open>g\<close> flag each call
  searches from the end of the match before, so the loop goes on with the text after
  the match. A block is pushed when its trimmed content passes the test of the source.
\<close>

definition looks_like_diagram :: "string \<Rightarrow> bool" where
  "looks_like_diagram c = (keyword_match c \<or> str_includes c ''-->'')"

definition mermaid_item :: "string \<Rightarrow> VisualItem" where
  "mermaid_item c = \<lparr>id_prefix = MermaidId, item_type = Mermaid, content = c\<rparr>"

definition image_item :: "IdPrefix \<Rightarrow> string \<Rightarrow> VisualItem" where
  "image_item pre url = \<lparr>id_prefix = pre, item_type = Image, content = url\<rparr>"

function mermaid_loop :: "string \<Rightarrow> VisualItem list \<Rightarrow> VisualItem list" where
  "mermaid_loop s newItems =
     (case leftmost mermaidRegex_at s of
        None \<Rightarrow> newItems
      | Some (cap, rest) \<Rightarrow>
          mermaid_loop rest
            (if looks_like_diagram (trim cap) then newItems @ [mermaid_item (trim cap)] else newItems))"
  by pat_completeness auto

text \<open>\<^verbatim>\<open>[...text.matchAll(conceptualRegex)]\<close>: the first group of every match, in order.\<close>

function conceptual_matchAll :: "string \<Rightarrow> string list" where
  "conceptual_matchAll s =
     (case leftmost conceptualRegex_at s of
        None \<Rightarrow> []
      | Some (cap, rest) \<Rightarrow> cap # conceptual_matchAll rest)"
  by pat_completeness auto

text \<open>
  The body of the \<open>for\<close> loop, with its \<open>try\<close>, \<open>catch\<close> and \<open>finally\<close>: the flag is
  set, the image is asked for, an image that is not empty is pushed, an error is
  swallowed (after \<open>openSelectKey\<close>, whose own failure is swallowed too, when
  \<open>window.aistudio\<close> exists and the error tells of a denied permission), and the flag is
  cleared. Every outcome of \<open>generateImage\<close> and of \<open>openSelectKey\<close> is a branch that
  ends in a state: no error leaves the step.
\<close>

definition conceptual_step :: "Env \<Rightarrow> World \<times> VisualItem list \<Rightarrow> string \<Rightarrow> World \<times> VisualItem list" where
  "conceptual_step env st cMatch =
     (let (w, newItems) = st;
          prompt = trim cMatch;
          w1 = w\<lparr>isGeneratingImage := True, trace := trace w @ [SetIsGeneratingImage True]\<rparr>;
          (r, w2) = generateImage env w1 prompt ''1K'';
          (w3, newItems') =
            (case r of
               Inr conceptualImg \<Rightarrow>
                 (case conceptualImg of
                    None \<Rightarrow> (w2, newItems)
                  | Some img \<Rightarrow>
                      if img \<noteq> [] then (w2, newItems @ [image_item ConceptId img]) else (w2, newItems))
             | Inl e \<Rightarrow>
                 (case window_aistudio env of
                    None \<Rightarrow> (w2, newItems)
                  | Some studio \<Rightarrow>
                      if is403 e
                      then (let w2' = w2\<lparr>trace := trace w2 @ [OpenSelectKey]\<rparr>
                            in if openSelectKey_rejects studio then (w2', newItems) else (w2', newItems))
                      else (w2, newItems)))
      in (w3\<lparr>isGeneratingImage := False, trace := trace w3 @ [SetIsGeneratingImage False]\<rparr>, newItems'))"

definition extractVisualization :: "Env \<Rightarrow> World \<Rightarrow> string \<Rightarrow> string option \<Rightarrow> World" where
  "extractVisualization env w text_in imagePart_in =
     (let newItems0 = mermaid_loop text_in [];
          newItems1 =
            (case imagePart_in of
               None \<Rightarrow> newItems0
             | Some img \<Rightarrow> if img \<noteq> [] then newItems0 @ [image_item ImgId img] else newItems0);
          (w', newItems) = foldl (conceptual_step env) (w, newItems1) (conceptual_matchAll text_in)
      in if length newItems > 0
         then w'\<lparr>visualization := visualization w' @ newItems,
                 activeTab := VISUALIZER, mobileView := WorkspaceView\<rparr>
         else w')"

section \<open>\<open>handleSendMessage\<close>\<close>

text \<open>
  \<open>customPrompt\<close> is \<open>undefined\<close> (\<open>None\<close>) or a string; an empty string is falsy, so it
  counts as no custom prompt. The quick actions pass a custom prompt, the input box
  passes none.
\<close>

definition truthy :: "string option \<Rightarrow> bool" where
  "truthy customPrompt = (case customPrompt of None \<Rightarrow> False | Some p \<Rightarrow> p \<noteq> [])"

definition messageText_of :: "string option \<Rightarrow> string \<Rightarrow> string" where
  "messageText_of customPrompt inp = (case customPrompt of None \<Rightarrow> inp | Some p \<Rightarrow> if p \<noteq> [] then p else inp)"

text \<open>The condition under which a typed message is turned away.\<close>

definition cheat_gate :: "string \<Rightarrow> bool" where
  "cheat_gate messageText =
     (cheatRegex_test messageText
      \<and> \<not> str_includes (toLowerCase messageText) ''logic''
      \<and> \<not> str_includes (toLowerCase messageText) ''explain''
      \<and> \<not> str_includes (toLowerCase messageText) ''diagram'')"

definition reject_turn :: "World \<Rightarrow> World" where
  "reject_turn w =
     w\<lparr>toastMessage := ''Think First! I cannot provide code directly. Let's discuss the logic.'',
       showToast := True\<rparr>"

text \<open>
  The turn after the two early returns: the user message, \<open>try\<close> (the request, the
  answer, the visualizations, the mentor status), \<open>catch\<close> (the fixed error message)
  and \<open>finally\<close> (the loading flag). The history sent is the one the callback closed
  over, the messages before the turn.
\<close>

definition error_message :: Message where
  "error_message = \<lparr>role = Model, msg_text = ''Logical connection reset. Please rephrase.''\<rparr>"

definition run_turn :: "Env \<Rightarrow> World \<Rightarrow> string option \<Rightarrow> string \<Rightarrow> World" where
  "run_turn env w customPrompt messageText =
     (let newUserMsg = \<lparr>role = User, msg_text = messageText\<rparr>;
          w1 = w\<lparr>messages := messages w @ [newUserMsg]\<rparr>;
          w2 = (if \<not> truthy customPrompt then w1\<lparr>input := []\<rparr> else w1);
          w3 = w2\<lparr>isLoading := True\<rparr>;
          history = map (\<lambda>m. (role m, msg_text m)) (messages w);
          (r, w4) = sendMessageToGemini env w3 history (msg_text newUserMsg) (knowledgeLevel w);
          w8 =
            (case r of
               Inr response \<Rightarrow>
                 (let newAiMsg =
                        \<lparr>role = Model,
                         msg_text = (if resp_text response \<noteq> [] then resp_text response
                                     else ''I see. Let's explore the structure of this logic.'')\<rparr>;
                      w5 = w4\<lparr>messages := messages w4 @ [newAiMsg]\<rparr>;
                      w6 = extractVisualization env w5 (resp_text response) (imagePart response)
                  in (case mentorStatus response of
                        Some Satisfied \<Rightarrow> w6\<lparr>mentorMode := True\<rparr>
                      | Some Searching \<Rightarrow> w6\<lparr>mentorMode := False\<rparr>
                      | None \<Rightarrow> w6))
             | Inl e \<Rightarrow> w4\<lparr>messages := messages w4 @ [error_message]\<rparr>)
      in w8\<lparr>isLoading := False\<rparr>)"

definition handleSendMessage :: "Env \<Rightarrow> World \<Rightarrow> string option \<Rightarrow> World" where
  "handleSendMessage env w customPrompt =
     (let messageText = messageText_of customPrompt (input w)
      in if trim messageText = [] then w
         else if \<not> truthy customPrompt \<and> cheat_gate messageText then reject_turn w
         else run_turn env w customPrompt messageText)"

section \<open>Notions used to state the properties\<close>

text \<open>\<open>p\<close> stands at the start of \<open>s\<close>, the letter case set aside.\<close>

definition ci_prefix :: "string \<Rightarrow> string \<Rightarrow> bool" where
  "ci_prefix p s = (map canonicalize (take (length p) s) = map canonicalize p)"

text \<open>
  The inner texts of the fenced regions of a text, in document order. A fenced region is
  what the pattern of the source matches: a fence of three backquotes, an optional hint
  (\<open>mermaid\<close>, \<open>flowchart\<close>, \<open>text\<close> or \<open>sequenceDiagram\<close>), white space, the inner text, and
  the next fence; the search for the next region starts behind that fence.
\<close>

function fenced_regions :: "string \<Rightarrow> string list" where
  "fenced_regions s =
     (case leftmost mermaidRegex_at s of
        None \<Rightarrow> []
      | Some (cap, rest) \<Rightarrow> cap # fenced_regions rest)"
  by pat_completeness auto

text \<open>
  The test for a diagram in the words of the specification: the content starts with one of
  the keywords, the letter case set aside, or holds the token \<open>-->\<close>.
\<close>

definition starts_with_keyword :: "string \<Rightarrow> bool" where
  "starts_with_keyword c =
     (\<exists>k\<in>set [''graph'', ''flowchart'', ''sequenceDiagram'', ''classDiagram'', ''stateDiagram'',
               ''erDiagram'', ''gantt'', ''pie'', ''gitGraph'', ''journey'', ''C4Context''].
        ci_prefix k c)"

definition qualifies :: "string \<Rightarrow> bool" where
  "qualifies c = (starts_with_keyword c \<or> sublist ''-->'' c)"

text \<open>
  The inner text of one region, given what stands between its two fences: a hint at the
  very start is left out (the first of the four that fits), and so is the white space
  that follows.
\<close>

definition region_content :: "string \<Rightarrow> string" where
  "region_content between =
     dropWhile isWhiteSpace
       (case filter (\<lambda>h. ci_prefix h between)
               [''mermaid'', ''flowchart'', ''text'', ''sequenceDiagram''] of
          [] \<Rightarrow> between
        | h # _ \<Rightarrow> drop (length h) between)"

text \<open>
  The fenced regions of a text found by plain search, without the matchers: the text is
  cut at the first fence, what follows is cut at the next fence, what stands between the
  two is one region, and the search goes on behind the second fence. Without a first or
  without a second fence there is no further region.
\<close>

fun split_at_fence :: "string \<Rightarrow> (string \<times> string) option" where
  "split_at_fence [] = None"
| "split_at_fence (c # cs) =
     (if prefix ''```'' (c # cs) then Some ([], drop 3 (c # cs))
      else map_option (\<lambda>(a, b). (c # a, b)) (split_at_fence cs))"

function regions_of :: "string \<Rightarrow> string list" where
  "regions_of s =
     (case split_at_fence s of
        None \<Rightarrow> []
      | Some (pre, r) \<Rightarrow>
          (case split_at_fence r of
             None \<Rightarrow> []
           | Some (between, post) \<Rightarrow> region_content between # regions_of post))"
  by pat_completeness auto

text \<open>The prompts of the image requests of a text: the trimmed first groups, in order.\<close>

definition conceptual_prompts :: "string \<Rightarrow> string list" where
  "conceptual_prompts s = map trim (conceptual_matchAll s)"

text \<open>
  A text has a dangling directive when the tag \<open>[CONCEPTUAL_VISUAL:\<close> stands somewhere
  in it and no closing bracket follows: the content of that directive would run on into
  whatever is appended.
\<close>

fun dangling :: "string \<Rightarrow> bool" where
  "dangling [] = False"
| "dangling (c # cs) =
     ((ci_prefix ''[CONCEPTUAL_VISUAL:'' (c # cs) \<and> CHR '']'' \<notin> set (c # cs)) \<or> dangling cs)"

text \<open>
  What the directive pattern does behind its tag, without the search: the content runs
  up to the first closing bracket and must not be empty; the group is the content
  without its leading white space, or its last character when it is white space only.
\<close>

definition directive_tail :: "string \<Rightarrow> (string \<times> string) option" where
  "directive_tail s =
     (case dropWhile (\<lambda>c. c \<noteq> CHR '']'') s of
        [] \<Rightarrow> None
      | _ # post \<Rightarrow>
          (let body = takeWhile (\<lambda>c. c \<noteq> CHR '']'') s
           in if body = [] then None
              else Some (if dropWhile isWhiteSpace body = [] then [last body]
                         else dropWhile isWhiteSpace body, post)))"

text \<open>
  The call of \<open>generateImage\<close> that the loop body makes for a match, the flag being set:
  its outcome is what the body sees as success, empty result or failure.
\<close>

definition image_call :: "Env \<Rightarrow> World \<Rightarrow> string \<Rightarrow> (ApiError + string option) \<times> World" where
  "image_call env w cMatch =
     generateImage env (w\<lparr>isGeneratingImage := True, trace := trace w @ [SetIsGeneratingImage True]\<rparr>)
       (trim cMatch) ''1K''"

definition is_ImageRequest :: "Event \<Rightarrow> bool" where
  "is_ImageRequest ev = (case ev of ImageRequest m p sz \<Rightarrow> True | _ \<Rightarrow> False)"

text \<open>
  What one image call contributes to the feed, the item of an inline image, and the
  outcomes of the image calls of a list of matches, each call made in the state that the
  step before it left behind.
\<close>

definition pushed_by :: "ApiError + string option \<Rightarrow> VisualItem list" where
  "pushed_by r =
     (case r of
        Inr (Some img) \<Rightarrow> if img \<noteq> [] then [image_item ConceptId img] else []
      | _ \<Rightarrow> [])"

definition inline_items :: "string option \<Rightarrow> VisualItem list" where
  "inline_items img = (case img of None \<Rightarrow> [] | Some i \<Rightarrow> if i \<noteq> [] then [image_item ImgId i] else [])"

fun image_outcomes :: "Env \<Rightarrow> World \<Rightarrow> string list \<Rightarrow> (ApiError + string option) list" where
  "image_outcomes env w [] = []"
| "image_outcomes env w (c # cs) =
     fst (image_call env w c) # image_outcomes env (fst (conceptual_step env (w, []) c)) cs"

text \<open>
  The marks an event leaves in the course of the image requests: a write of the flag,
  or the prompt of a request to the first model (the request every call of
  \<open>generateImage\<close> starts with).
\<close>

definition mark :: "Event \<Rightarrow> (bool + string) list" where
  "mark ev =
     (case ev of
        SetIsGeneratingImage b \<Rightarrow> [Inl b]
      | ImageRequest m p sz \<Rightarrow> if m = ''gemini-3-pro-image-preview'' then [Inr p] else []
      | _ \<Rightarrow> [])"

definition step_marks :: "Event list \<Rightarrow> (bool + string) list" where
  "step_marks evs = concat (map mark evs)"

text \<open>The items a call of \<open>extractVisualization\<close> appends to the feed.\<close>

definition appended_items :: "World \<Rightarrow> World \<Rightarrow> VisualItem list" where
  "appended_items w w' = drop (length (visualization w)) (visualization w')"

text \<open>The events a call adds to the trace.\<close>

definition new_events :: "World \<Rightarrow> World \<Rightarrow> Event list" where
  "new_events w w' = drop (length (trace w)) (trace w')"

text \<open>
  The mentor statuses a response declares: the \<open>status\<close> arguments of its
  \<open>updateMentorStatus\<close> calls, in the order of the parts. A response has text when one
  of its parts carries a text that is not empty.
\<close>

definition mentor_declarations :: "GenerateContentResponse \<Rightarrow> MentorStatus list" where
  "mentor_declarations response =
     map fc_status
       (filter (\<lambda>call. fc_name call = ''updateMentorStatus'')
          (List.map_filter functionCall (parts_or_empty response)))"

definition has_text :: "GenerateContentResponse \<Rightarrow> bool" where
  "has_text response =
     list_ex (\<lambda>p. case part_text p of None \<Rightarrow> False | Some t \<Rightarrow> t \<noteq> []) (parts_or_empty response)"

text \<open>
  Two texts are equal up to letter case, and a text asks for finished code when, on one
  line, one of the verbs is followed by one of the nouns (each in any letter case, as a
  piece of the text, not as a word of its own): between the two there is no line break.
\<close>

definition ci_equal :: "string \<Rightarrow> string \<Rightarrow> bool" where
  "ci_equal a b = (map canonicalize a = map canonicalize b)"

definition asks_for_code :: "string \<Rightarrow> bool" where
  "asks_for_code s =
     (\<exists>pre v mid n post.
        s = pre @ v @ mid @ n @ post
        \<and> (\<exists>x\<in>set [''give'', ''write'', ''show'']. ci_equal v x)
        \<and> (\<exists>y\<in>set [''code'', ''answer'', ''solution'', ''full'']. ci_equal n y)
        \<and> (\<forall>c\<in>set mid. \<not> isLineTerminator c))"

text \<open>The text a submission carries, and whether the turn gets past both early returns.\<close>

definition turn_starts :: "World \<Rightarrow> string option \<Rightarrow> bool" where
  "turn_starts w customPrompt =
     (trim (messageText_of customPrompt (input w)) \<noteq> []
      \<and> (truthy customPrompt \<or> \<not> cheat_gate (messageText_of customPrompt (input w))))"

text \<open>The request of a turn, and the answer of the chat service to it.\<close>

definition chat_outcome :: "Env \<Rightarrow> World \<Rightarrow> string option \<Rightarrow> ApiError + GenerateContentResponse" where
  "chat_outcome env w customPrompt =
     chat_generateContent env (length (trace w))
       (map (\<lambda>m. (role m, msg_text m)) (messages w) @ [(User, messageText_of customPrompt (input w))])
       (knowledgeLevel w)"

subsection \<open>Example collaborators and states\<close>

text \<open>Collaborators that always answer the same, a response of one text part, and a state at rest.\<close>

definition const_env :: "ApiError + GenerateContentResponse \<Rightarrow> ApiError + GenerateContentResponse \<Rightarrow> AIStudio option \<Rightarrow> Env" where
  "const_env chat img studio =
     \<lparr>chat_generateContent = (\<lambda>t contents level. chat),
      image_generateContent = (\<lambda>t model prompt. img),
      window_aistudio = studio\<rparr>"

definition text_response :: "string \<Rightarrow> GenerateContentResponse" where
  "text_response t =
     \<lparr>candidates = Some [\<lparr>cand_content = Some \<lparr>parts = Some [\<lparr>part_text = Some t, functionCall = None, inlineData = None\<rparr>]\<rparr>\<rparr>]\<rparr>"

definition status_response :: "string option \<Rightarrow> MentorStatus list \<Rightarrow> GenerateContentResponse" where
  "status_response t sts =
     \<lparr>candidates = Some [\<lparr>cand_content = Some \<lparr>parts = Some
        (\<lparr>part_text = t, functionCall = None, inlineData = None\<rparr> #
         map (\<lambda>st. \<lparr>part_text = None,
                     functionCall = Some \<lparr>fc_name = ''updateMentorStatus'', fc_status = st\<rparr>,
                     inlineData = None\<rparr>) sts)\<rparr>\<rparr>]\<rparr>"

definition image_response :: "string \<Rightarrow> GenerateContentResponse" where
  "image_response d =
     \<lparr>candidates = Some [\<lparr>cand_content = Some \<lparr>parts = Some
        [\<lparr>part_text = None, functionCall = None, inlineData = Some \<lparr>mimeType = ''image/png'', blob_data = d\<rparr>\<rparr>]\<rparr>\<rparr>]\<rparr>"

definition api_error :: "nat option \<Rightarrow> string option \<Rightarrow> ApiError" where
  "api_error st msg = \<lparr>status = st, message = msg\<rparr>"

definition idle_world :: "string \<Rightarrow> World" where
  "idle_world inp =
     \<lparr>messages = [\<lparr>role = Model, msg_text = ''Greetings.''\<rparr>], input = inp, isLoading = False,
      knowledgeLevel = BEGINNER, activeTab = TEMPLATES, visualization = [], mentorMode = False,
      showToast = False, toastMessage = ''Think First! No direct code.'', mobileView = ChatView,
      isGeneratingImage = False, trace = []\<rparr>"

section \<open>Facts about the matchers\<close>

lemma of_char_lt: "(of_char (c::char) :: nat) < 256"
  by (cases c) simp

lemma canonicalize_eq_iff:
  assumes x: "(of_char x :: nat) < 65 \<or> (90 < (of_char x :: nat) \<and> (of_char x :: nat) < 97)
              \<or> (122 < (of_char x :: nat) \<and> (of_char x :: nat) < 192)"
  shows "canonicalize c = x \<longleftrightarrow> c = x"
proof
  assume a: "canonicalize c = x"
  show "c = x"
  proof (rule ccontr)
    assume n: "c \<noteq> x"
    let ?n = "of_char c :: nat"
    from a n have r: "(97 \<le> ?n \<and> ?n \<le> 122) \<or> (224 \<le> ?n \<and> ?n \<le> 254 \<and> ?n \<noteq> 247)"
      and e: "char_of (?n - 32) = x"
      by (auto simp: canonicalize_def Let_def split: if_splits)
    from e have "(of_char (char_of (?n - 32) :: char) :: nat) = of_char x" by simp
    then have "(?n - 32) mod 256 = of_char x" by simp
    with r x of_char_lt[of c] show False by auto
  qed
next
  assume "c = x"
  with x show "canonicalize c = x" by (auto simp: canonicalize_def Let_def)
qed

lemma canon_backtick [simp]: "canonicalize c = CHR ''`'' \<longleftrightarrow> c = CHR ''`''"
  by (rule canonicalize_eq_iff) simp

lemma canon_backtick' [simp]: "CHR ''`'' = canonicalize c \<longleftrightarrow> c = CHR ''`''"
  using canon_backtick[of c] by (auto simp del: canon_backtick)

lemma canon_rbracket [simp]: "canonicalize c = CHR '']'' \<longleftrightarrow> c = CHR '']''"
  by (rule canonicalize_eq_iff) simp

lemma canon_rbracket' [simp]: "CHR '']'' = canonicalize c \<longleftrightarrow> c = CHR '']''"
  using canon_rbracket[of c] by (auto simp del: canon_rbracket)

lemma canon_lbracket [simp]: "canonicalize c = CHR ''['' \<longleftrightarrow> c = CHR ''[''"
  by (rule canonicalize_eq_iff) simp

lemma ws_not_backtick: "isWhiteSpace c \<Longrightarrow> c \<noteq> CHR ''`''"
  by (auto simp: isWhiteSpace_def)

lemma ws_not_rbracket: "isWhiteSpace c \<Longrightarrow> c \<noteq> CHR '']''"
  by (auto simp: isWhiteSpace_def)

lemma lit_ci_eq:
  "lit_ci p k s = (if ci_prefix p s then k (drop (length p) s) else None)"
  unfolding ci_prefix_def
  by (induction p k s rule: lit_ci.induct) auto

lemma alt_ci_SomeD: "alt_ci as k s = Some r \<Longrightarrow> \<exists>a\<in>set as. ci_prefix a s \<and> k (drop (length a) s) = Some r"
  by (induction as) (auto simp: lit_ci_eq split: option.splits if_splits)

lemma alt_ci_None_iff: "alt_ci as k s = None \<longleftrightarrow> (\<forall>a\<in>set as. ci_prefix a s \<longrightarrow> k (drop (length a) s) = None)"
  by (induction as) (auto simp: lit_ci_eq split: option.splits if_splits)

lemma star_greedy_SomeD:
  "star_greedy P k s = Some r \<Longrightarrow> \<exists>ws s'. s = ws @ s' \<and> (\<forall>c\<in>set ws. P c) \<and> k s' = Some r"
proof (induction s)
  case Nil then show ?case by auto
next
  case (Cons c cs)
  show ?case
  proof (cases "P c \<and> star_greedy P k cs = Some r")
    case True
    with Cons.IH obtain ws s' where "cs = ws @ s'" "\<forall>c\<in>set ws. P c" "k s' = Some r" by blast
    with True have "c # cs = (c # ws) @ s' \<and> (\<forall>x\<in>set (c # ws). P x) \<and> k s' = Some r" by simp
    then show ?thesis by blast
  next
    case False
    with Cons.prems have "k (c # cs) = Some r" by (auto split: if_splits option.splits)
    then have "c # cs = [] @ (c # cs) \<and> (\<forall>x\<in>set []. P x) \<and> k (c # cs) = Some r" by simp
    then show ?thesis by blast
  qed
qed

lemma star_greedy_mono_eq:
  assumes mono: "\<And>c s'. P c \<Longrightarrow> k s' = None \<Longrightarrow> k (c # s') = None"
  shows "star_greedy P k s = k (dropWhile P s)"
proof -
  have unwind: "k (dropWhile P s) = None \<Longrightarrow> k s = None" for s
  proof (induction s)
    case Nil then show ?case by simp
  next
    case (Cons c cs)
    show ?case
    proof (cases "P c")
      case True
      with Cons have "k cs = None" by simp
      with True show ?thesis by (rule mono)
    next
      case False
      with Cons.prems show ?thesis by simp
    qed
  qed
  show ?thesis
  proof (induction s)
    case Nil show ?case by simp
  next
    case (Cons c cs)
    then show ?case using unwind[of cs] by (auto split: option.splits intro: mono)
  qed
qed

lemma cap_star_lazy_SomeD:
  "cap_star_lazy P k s = Some (cap, r) \<Longrightarrow> \<exists>s'. s = cap @ s' \<and> k s' = Some r"
  by (induction s arbitrary: cap) (auto split: option.splits if_splits)

lemma leftmost_SomeD: "leftmost m s = Some r \<Longrightarrow> \<exists>pre s'. s = pre @ s' \<and> m s' = Some r"
proof (induction s)
  case Nil then show ?case by auto
next
  case (Cons c cs)
  show ?case
  proof (cases "m (c # cs)")
    case None
    with Cons obtain pre s' where "cs = pre @ s'" "m s' = Some r" by auto
    then have "c # cs = (c # pre) @ s' \<and> m s' = Some r" by simp
    then show ?thesis by blast
  next
    case (Some a)
    with Cons.prems have "c # cs = [] @ (c # cs) \<and> m (c # cs) = Some r" by simp
    then show ?thesis by blast
  qed
qed

lemma leftmost_None_iff: "leftmost m s = None \<longleftrightarrow> (\<forall>i\<le>length s. m (drop i s) = None)"
proof (induction s)
  case Nil show ?case by simp
next
  case (Cons c cs)
  have "(\<forall>i\<le>length (c # cs). m (drop i (c # cs)) = None) \<longleftrightarrow> m (c # cs) = None \<and> (\<forall>i\<le>length cs. m (drop i cs) = None)"
  proof
    assume a: "\<forall>i\<le>length (c # cs). m (drop i (c # cs)) = None"
    from a[rule_format, of 0] have "m (c # cs) = None" by simp
    moreover have "m (drop i cs) = None" if "i \<le> length cs" for i using a[rule_format, of "Suc i"] that by simp
    ultimately show "m (c # cs) = None \<and> (\<forall>i\<le>length cs. m (drop i cs) = None)" by blast
  next
    assume a: "m (c # cs) = None \<and> (\<forall>i\<le>length cs. m (drop i cs) = None)"
    show "\<forall>i\<le>length (c # cs). m (drop i (c # cs)) = None"
    proof (intro allI impI)
      fix i assume "i \<le> length (c # cs)"
      then show "m (drop i (c # cs)) = None" using a by (cases i) auto
    qed
  qed
  with Cons show ?case by (auto split: option.splits)
qed


lemma canon_consts [simp]:
  "canonicalize CHR ''`'' = CHR ''`''" "canonicalize CHR '']'' = CHR '']''" "canonicalize CHR ''['' = CHR ''[''"
  by (simp_all add: canonicalize_def)

lemma lit_fence_iff: "lit_ci ''```'' k s = Some r \<longleftrightarrow> (\<exists>s'. s = ''```'' @ s' \<and> k s' = Some r)"
proof (cases s)
  case Nil then show ?thesis by simp
next
  case s1: (Cons a s1)
  show ?thesis
  proof (cases s1)
    case Nil with s1 show ?thesis by simp
  next
    case s2: (Cons b s2)
    show ?thesis
    proof (cases s2)
      case Nil with s1 s2 show ?thesis by simp
    next
      case (Cons c s3)
      with s1 s2 show ?thesis by auto
    qed
  qed
qed

lemma mermaidRegex_at_SomeD:
  assumes "mermaidRegex_at s = Some (cap, rest)"
  shows "\<exists>mid. s = ''```'' @ mid @ cap @ ''```'' @ rest"
proof -
  let ?L = "cap_star_lazy (\<lambda>c. True) (lit_ci ''```'' Some)"
  let ?K = "star_greedy isWhiteSpace ?L"
  let ?hints = "fence_hints"
  from assms obtain s0 where s: "s = ''```'' @ s0" and o: "opt_alt_ci ?hints ?K s0 = Some (cap, rest)"
    unfolding mermaidRegex_at_def lit_fence_iff by blast
  have "\<exists>n. ?K (drop n s0) = Some (cap, rest)"
  proof (cases "alt_ci ?hints ?K s0")
    case None
    with o have "?K (drop 0 s0) = Some (cap, rest)" by (simp add: opt_alt_ci_def)
    then show ?thesis by blast
  next
    case (Some a)
    with o have "alt_ci ?hints ?K s0 = Some (cap, rest)" by (simp add: opt_alt_ci_def)
    from alt_ci_SomeD[OF this] show ?thesis by blast
  qed
  then obtain n where "?K (drop n s0) = Some (cap, rest)" ..
  from star_greedy_SomeD[OF this] obtain ws s' where
    d: "drop n s0 = ws @ s'" and l: "?L s' = Some (cap, rest)" by blast
  from cap_star_lazy_SomeD[OF l] obtain s'' where s': "s' = cap @ s''" and "lit_ci ''```'' Some s'' = Some rest" by blast
  then have s'': "s'' = ''```'' @ rest" by (simp add: lit_fence_iff)
  have "s0 = take n s0 @ drop n s0" by simp
  with d s' s'' have "s0 = (take n s0 @ ws) @ cap @ ''```'' @ rest" by simp
  with s have "s = ''```'' @ (take n s0 @ ws) @ cap @ ''```'' @ rest" by metis
  then show ?thesis by blast
qed

lemma mermaid_exec_SomeD:
  assumes "leftmost mermaidRegex_at s = Some (cap, rest)"
  shows "\<exists>pre mid. s = pre @ ''```'' @ mid @ cap @ ''```'' @ rest"
proof -
  from leftmost_SomeD[OF assms] obtain pre s' where "s = pre @ s'" "mermaidRegex_at s' = Some (cap, rest)" by blast
  with mermaidRegex_at_SomeD[of s' cap rest] show ?thesis by auto
qed

lemma mermaid_exec_shorter: "leftmost mermaidRegex_at s = Some (cap, rest) \<Longrightarrow> length rest < length s"
  using mermaid_exec_SomeD[of s cap rest] by auto

termination mermaid_loop
  by (relation "measure (\<lambda>(s, newItems). length s)") (auto dest: mermaid_exec_shorter)

termination fenced_regions
  by (relation "measure length") (auto dest: mermaid_exec_shorter)

declare mermaid_loop.simps [simp del] fenced_regions.simps [simp del]

lemma cap_star_greedy_rb:
  "cap_star_greedy (\<lambda>c. c \<noteq> CHR '']'') (lit_ci '']'' Some) s =
     (case dropWhile (\<lambda>c. c \<noteq> CHR '']'') s of
        [] \<Rightarrow> None
      | _ # post \<Rightarrow> Some (takeWhile (\<lambda>c. c \<noteq> CHR '']'') s, post))"
proof (induction s)
  case Nil show ?case by simp
next
  case (Cons c cs)
  show ?case
  proof (cases "c = CHR '']''")
    case True then show ?thesis by simp
  next
    case False
    show ?thesis
    proof (cases "dropWhile (\<lambda>c. c \<noteq> CHR '']'') cs")
      case Nil
      with False Cons.IH show ?thesis by (simp del: dropWhile_eq_Nil_conv)
    next
      case (Cons x post)
      with False Cons.IH show ?thesis by (simp del: dropWhile_eq_Nil_conv)
    qed
  qed
qed

lemma cap_plus_greedy_rb:
  "cap_plus_greedy (\<lambda>c. c \<noteq> CHR '']'') (lit_ci '']'' Some) s =
     (case dropWhile (\<lambda>c. c \<noteq> CHR '']'') s of
        [] \<Rightarrow> None
      | _ # post \<Rightarrow>
          if takeWhile (\<lambda>c. c \<noteq> CHR '']'') s = [] then None
          else Some (takeWhile (\<lambda>c. c \<noteq> CHR '']'') s, post))"
proof (cases s)
  case Nil then show ?thesis by simp
next
  case (Cons c cs)
  show ?thesis
  proof (cases "c = CHR '']''")
    case True with Cons show ?thesis by simp
  next
    case False
    show ?thesis
    proof (cases "dropWhile (\<lambda>c. c \<noteq> CHR '']'') cs")
      case Nil
      with False Cons show ?thesis by (simp add: cap_star_greedy_rb del: dropWhile_eq_Nil_conv)
    next
      case d: (Cons x post)
      with False Cons show ?thesis by (simp add: cap_star_greedy_rb del: dropWhile_eq_Nil_conv)
    qed
  qed
qed

lemma star_greedy_directive:
  "star_greedy isWhiteSpace (cap_plus_greedy (\<lambda>c. c \<noteq> CHR '']'') (lit_ci '']'' Some)) s = directive_tail s"
proof (induction s)
  case Nil
  show ?case by (simp add: directive_tail_def)
next
  case (Cons c cs)
  show ?case
  proof (cases "isWhiteSpace c")
    case False
    show ?thesis
    proof (cases "c = CHR '']''")
      case True
      with False show ?thesis by (simp add: cap_plus_greedy_rb directive_tail_def)
    next
      case nrb: False
      show ?thesis
      proof (cases "dropWhile (\<lambda>c. c \<noteq> CHR '']'') cs")
        case Nil
        with False nrb show ?thesis
          by (simp add: cap_plus_greedy_rb directive_tail_def del: dropWhile_eq_Nil_conv)
      next
        case (Cons x post)
        with False nrb show ?thesis
          by (simp add: cap_plus_greedy_rb directive_tail_def del: dropWhile_eq_Nil_conv)
      qed
    qed
  next
    case True
    then have c: "c \<noteq> CHR '']''" by (rule ws_not_rbracket)
    show ?thesis
    proof (cases "dropWhile (\<lambda>c. c \<noteq> CHR '']'') cs")
      case Nil
      with True c Cons.IH show ?thesis
        by (simp add: cap_plus_greedy_rb directive_tail_def del: dropWhile_eq_Nil_conv)
    next
      case d: (Cons x post)
      show ?thesis
      proof (cases "takeWhile (\<lambda>c. c \<noteq> CHR '']'') cs = []")
        case True
        with \<open>isWhiteSpace c\<close> c d Cons.IH show ?thesis
          by (simp add: cap_plus_greedy_rb directive_tail_def del: dropWhile_eq_Nil_conv)
      next
        case False
        with \<open>isWhiteSpace c\<close> c d Cons.IH show ?thesis
          by (simp add: cap_plus_greedy_rb directive_tail_def Let_def del: dropWhile_eq_Nil_conv)
      qed
    qed
  qed
qed

lemma conceptualRegex_at_eq:
  "conceptualRegex_at s =
     (if ci_prefix ''[CONCEPTUAL_VISUAL:'' s then directive_tail (drop (length ''[CONCEPTUAL_VISUAL:'') s) else None)"
  unfolding conceptualRegex_at_def lit_ci_eq star_greedy_directive ..

lemma trim_dropWhile: "trim (dropWhile isWhiteSpace b) = trim b"
  by (simp add: trim_def)

lemma trim_all_ws: "dropWhile isWhiteSpace b = [] \<Longrightarrow> trim b = []"
  by (simp add: trim_def del: dropWhile_eq_Nil_conv)

lemma trim_last_ws:
  assumes "dropWhile isWhiteSpace b = []" "b \<noteq> []"
  shows "trim [last b] = []"
proof -
  from assms have "isWhiteSpace (last b)" by simp
  then show ?thesis by (simp add: trim_def)
qed

lemma directive_tail_Some:
  assumes "body \<noteq> []" "CHR '']'' \<notin> set body"
  shows "\<exists>cap. directive_tail (body @ CHR '']'' # post) = Some (cap, post) \<and> trim cap = trim body"
proof -
  from assms(2) have t: "takeWhile (\<lambda>c. c \<noteq> CHR '']'') (body @ CHR '']'' # post) = body"
    by (induction body) auto
  from assms(2) have d: "dropWhile (\<lambda>c. c \<noteq> CHR '']'') (body @ CHR '']'' # post) = CHR '']'' # post"
    by (induction body) auto
  show ?thesis
  proof (cases "dropWhile isWhiteSpace body = []")
    case True
    with assms(1) t d have "directive_tail (body @ CHR '']'' # post) = Some ([last body], post)"
      by (simp add: directive_tail_def del: dropWhile_eq_Nil_conv)
    moreover from True assms(1) have "trim [last body] = trim body"
      by (simp add: trim_last_ws trim_all_ws del: dropWhile_eq_Nil_conv)
    ultimately show ?thesis by blast
  next
    case False
    with assms(1) t d have "directive_tail (body @ CHR '']'' # post) = Some (dropWhile isWhiteSpace body, post)"
      by (simp add: directive_tail_def del: dropWhile_eq_Nil_conv)
    then show ?thesis by (auto simp: trim_dropWhile)
  qed
qed

lemma directive_tail_SomeD:
  assumes "directive_tail s = Some (cap, rest)"
  shows "\<exists>body. s = body @ CHR '']'' # rest \<and> body \<noteq> [] \<and> CHR '']'' \<notin> set body \<and> trim cap = trim body"
proof -
  let ?body = "takeWhile (\<lambda>c. c \<noteq> CHR '']'') s"
  from assms obtain x where d: "dropWhile (\<lambda>c. c \<noteq> CHR '']'') s = x # rest" and ne: "?body \<noteq> []"
    by (auto simp: directive_tail_def Let_def split: list.splits if_splits simp del: dropWhile_eq_Nil_conv)
  from d have x: "x = CHR '']''" by (simp add: dropWhile_eq_Cons_conv)
  have "s = ?body @ dropWhile (\<lambda>c. c \<noteq> CHR '']'') s" by simp
  with d x have s: "s = ?body @ CHR '']'' # rest" by simp
  have nb: "CHR '']'' \<notin> set ?body" using set_takeWhileD by fastforce
  from directive_tail_Some[OF ne nb, of rest] s assms have "trim cap = trim ?body" by auto
  with s ne nb show ?thesis by blast
qed

lemma directive_tail_None:
  assumes "CHR '']'' \<notin> set s"
  shows "directive_tail s = None"
proof -
  from assms have "dropWhile (\<lambda>c. c \<noteq> CHR '']'') s = []" by (induction s) auto
  then show ?thesis by (simp add: directive_tail_def del: dropWhile_eq_Nil_conv)
qed

lemma directive_tail_shorter: "directive_tail t = Some (cap, rest) \<Longrightarrow> length rest < length t"
  by (drule directive_tail_SomeD) auto

lemma conceptual_exec_shorter:
  assumes "leftmost conceptualRegex_at s = Some (cap, rest)"
  shows "length rest < length s"
proof -
  from leftmost_SomeD[OF assms] obtain pre s' where s: "s = pre @ s'" and m: "conceptualRegex_at s' = Some (cap, rest)" by blast
  from m obtain n where "directive_tail (drop n s') = Some (cap, rest)"
    by (auto simp only: conceptualRegex_at_eq split: if_splits)
  from directive_tail_shorter[OF this] have "length rest < length s'" by simp
  with s show ?thesis by simp
qed

termination conceptual_matchAll
  by (relation "measure length") (auto dest: conceptual_exec_shorter)

declare conceptual_matchAll.simps [simp del]

section \<open>What the calls leave untouched\<close>

lemma generateImage_frame:
  "generateImage env w prompt imageSize = (r, w') \<Longrightarrow> \<exists>evs. w' = w\<lparr>trace := trace w @ evs\<rparr>"
  by (auto simp: generateImage_def Let_def split: sum.splits if_splits)

lemma conceptual_step_frame:
  assumes "conceptual_step env (w, newItems) cMatch = (w', newItems')"
  shows "\<exists>evs. w' = w\<lparr>isGeneratingImage := False, trace := trace w @ evs\<rparr>"
proof -
  obtain r w2 where g: "generateImage env (w\<lparr>isGeneratingImage := True, trace := trace w @ [SetIsGeneratingImage True]\<rparr>) (trim cMatch) ''1K'' = (r, w2)"
    by (cases "generateImage env (w\<lparr>isGeneratingImage := True, trace := trace w @ [SetIsGeneratingImage True]\<rparr>) (trim cMatch) ''1K''")
  from generateImage_frame[OF g] obtain evs where
    w2: "w2 = w\<lparr>isGeneratingImage := True, trace := trace w @ SetIsGeneratingImage True # evs\<rparr>" by auto
  from assms g show ?thesis
    by (auto simp: conceptual_step_def Let_def w2 split: sum.splits option.splits if_splits)
qed

lemma conceptual_loop_frame:
  "foldl (conceptual_step env) (w, newItems) ms = (w', newItems') \<Longrightarrow>
     \<exists>evs. w' = w\<lparr>isGeneratingImage := (if ms = [] then isGeneratingImage w else False), trace := trace w @ evs\<rparr>"
proof (induction ms arbitrary: w newItems)
  case Nil
  then have "w' = w\<lparr>isGeneratingImage := isGeneratingImage w, trace := trace w @ []\<rparr>" by simp
  then show ?case by (metis (full_types))
next
  case (Cons m ms)
  obtain w1 items1 where s: "conceptual_step env (w, newItems) m = (w1, items1)"
    by (cases "conceptual_step env (w, newItems) m")
  from conceptual_step_frame[OF s] obtain e1 where w1: "w1 = w\<lparr>isGeneratingImage := False, trace := trace w @ e1\<rparr>" by blast
  from Cons.prems s have "foldl (conceptual_step env) (w1, items1) ms = (w', newItems')" by simp
  from Cons.IH[OF this] obtain e2 where "w' = w1\<lparr>isGeneratingImage := (if ms = [] then isGeneratingImage w1 else False), trace := trace w1 @ e2\<rparr>" by blast
  with w1 have "w' = w\<lparr>isGeneratingImage := False, trace := trace w @ (e1 @ e2)\<rparr>" by auto
  then show ?case by auto
qed

lemma extractVisualization_frame:
  "\<exists>b evs its tab mv. extractVisualization env w t img =
      w\<lparr>isGeneratingImage := b, trace := trace w @ evs, visualization := visualization w @ its,
        activeTab := tab, mobileView := mv\<rparr>"
proof -
  let ?n1 = "(case img of None \<Rightarrow> mermaid_loop t []
             | Some i \<Rightarrow> if i \<noteq> [] then mermaid_loop t [] @ [image_item ImgId i] else mermaid_loop t [])"
  obtain w' items where f: "foldl (conceptual_step env) (w, ?n1) (conceptual_matchAll t) = (w', items)"
    by (cases "foldl (conceptual_step env) (w, ?n1) (conceptual_matchAll t)")
  from conceptual_loop_frame[OF f] obtain b evs where w': "w' = w\<lparr>isGeneratingImage := b, trace := trace w @ evs\<rparr>" by blast
  show ?thesis
  proof (cases "items = []")
    case True
    with f w' have "extractVisualization env w t img =
      w\<lparr>isGeneratingImage := b, trace := trace w @ evs, visualization := visualization w @ [],
        activeTab := activeTab w, mobileView := mobileView w\<rparr>"
      by (simp add: extractVisualization_def Let_def)
    then show ?thesis by blast
  next
    case False
    with f w' have "extractVisualization env w t img =
      w\<lparr>isGeneratingImage := b, trace := trace w @ evs, visualization := visualization w @ items,
        activeTab := VISUALIZER, mobileView := WorkspaceView\<rparr>"
      by (simp add: extractVisualization_def Let_def)
    then show ?thesis by blast
  qed
qed

lemma extractVisualization_keeps:
  "messages (extractVisualization env w t img) = messages w"
  "mentorMode (extractVisualization env w t img) = mentorMode w"
  "isLoading (extractVisualization env w t img) = isLoading w"
  "input (extractVisualization env w t img) = input w"
  "showToast (extractVisualization env w t img) = showToast w"
  "toastMessage (extractVisualization env w t img) = toastMessage w"
  "knowledgeLevel (extractVisualization env w t img) = knowledgeLevel w"
  using extractVisualization_frame[of env w t img] by auto

section \<open>The chat turn\<close>

lemma trim_Nil_iff: "trim s = [] \<longleftrightarrow> (\<forall>c\<in>set s. isWhiteSpace c)"
proof
  assume "\<forall>c\<in>set s. isWhiteSpace c"
  then have "dropWhile isWhiteSpace s = []" by simp
  then show "trim s = []" by (simp add: trim_def del: dropWhile_eq_Nil_conv)
next
  assume "trim s = []"
  then have a: "\<forall>x\<in>set (dropWhile isWhiteSpace s). isWhiteSpace x" by (simp add: trim_def)
  have "dropWhile isWhiteSpace s = []"
  proof (rule ccontr)
    assume n: "dropWhile isWhiteSpace s \<noteq> []"
    then have "\<not> isWhiteSpace (hd (dropWhile isWhiteSpace s))" by (rule hd_dropWhile)
    moreover from n have "hd (dropWhile isWhiteSpace s) \<in> set (dropWhile isWhiteSpace s)" by simp
    ultimately show False using a by blast
  qed
  then show "\<forall>c\<in>set s. isWhiteSpace c" by simp
qed

text \<open>
  C9. A submission whose text is empty or white space only does nothing: the state comes
  back as it was, so no message is appended, no request is made (the trace is the same)
  and no notice is raised, whether or not the text would have been turned away.
\<close>

theorem blank_submission_is_noop:
  assumes "\<forall>c\<in>set (messageText_of customPrompt (input w)). isWhiteSpace c"
  shows "handleSendMessage env w customPrompt = w"
  using assms by (simp add: handleSendMessage_def trim_Nil_iff)

theorem blank_submission_is_noop_witness:
  "handleSendMessage (const_env (Inr (text_response ''hello'')) (Inr (image_response ''AAAA'')) None)
     (idle_world ''  '') None = idle_world ''  ''
   \<and> handleSendMessage (const_env (Inr (text_response ''hello'')) (Inr (image_response ''AAAA'')) None)
     (idle_world ''typed'') (Some [CHR 0x09, CHR 0x0A]) = idle_world ''typed''"
proof -
  have a: "\<forall>c\<in>set (messageText_of None (input (idle_world ''  ''))). isWhiteSpace c"
    by (simp add: messageText_of_def idle_world_def isWhiteSpace_def)
  have b: "\<forall>c\<in>set (messageText_of (Some [CHR 0x09, CHR 0x0A]) (input (idle_world ''typed''))). isWhiteSpace c"
    by (simp add: messageText_of_def idle_world_def isWhiteSpace_def)
  show ?thesis
    using blank_submission_is_noop[OF a] blank_submission_is_noop[OF b] by simp
qed

section \<open>The chat wrapper\<close>

lemma mentorStatus_loop_last:
  "mentorStatus_loop calls ms =
     (if filter (\<lambda>call. fc_name call = ''updateMentorStatus'') calls = [] then ms
      else Some (last (map fc_status (filter (\<lambda>call. fc_name call = ''updateMentorStatus'') calls))))"
  by (induction calls arbitrary: ms) auto

lemma parts_loop_no_text:
  "\<not> list_ex (\<lambda>p. case part_text p of None \<Rightarrow> False | Some t \<Rightarrow> t \<noteq> []) ps \<Longrightarrow>
     fst (parts_loop ps (finalText, img)) = finalText"
  by (induction ps arbitrary: finalText img) (auto split: option.splits)

lemma functionCalls_parts:
  "functionCalls_of response = Some calls \<Longrightarrow> calls = List.map_filter functionCall (parts_or_empty response)"
  by (auto simp: functionCalls_of_def parts_or_empty_def)

lemma functionCalls_None:
  "functionCalls_of response = None \<Longrightarrow> parts_or_empty response = []"
  by (auto simp: functionCalls_of_def parts_or_empty_def)

lemma parse_mentorStatus:
  "mentorStatus (parse_response response) =
     (if mentor_declarations response = [] then None else Some (last (mentor_declarations response)))"
proof (cases "functionCalls_of response")
  case None
  from functionCalls_None[OF this] None show ?thesis
    by (simp add: parse_response_def mentor_declarations_def Let_def map_filter_simps split: prod.splits)
next
  case (Some calls)
  from functionCalls_parts[OF this] Some show ?thesis
    by (auto simp: parse_response_def mentor_declarations_def Let_def mentorStatus_loop_last split: prod.splits)
qed

lemma parse_text_fixed:
  assumes "mentor_declarations response \<noteq> []" "\<not> has_text response"
  shows "resp_text (parse_response response) = ''I have updated my mentor status and am analyzing your logic further.''"
proof (cases "functionCalls_of response")
  case None
  from functionCalls_None[OF this] assms(1) show ?thesis
    by (simp add: mentor_declarations_def map_filter_simps)
next
  case (Some calls)
  from functionCalls_parts[OF this] assms(1) have ne: "calls \<noteq> []"
    by (auto simp: mentor_declarations_def)
  from assms(2) have "fst (parts_loop (parts_or_empty response) ([], None)) = []"
    unfolding has_text_def by (rule parts_loop_no_text)
  with Some ne show ?thesis
    by (auto simp: parse_response_def Let_def split: prod.splits)
qed

lemma parse_text_nonempty:
  assumes "mentorStatus (parse_response response) \<noteq> None"
  shows "resp_text (parse_response response) \<noteq> []"
proof (cases "functionCalls_of response")
  case None
  with assms show ?thesis by (simp add: parse_response_def Let_def split: prod.splits)
next
  case (Some calls)
  with assms have "calls \<noteq> []" by (auto simp: parse_response_def Let_def split: prod.splits if_splits)
  with Some show ?thesis
    by (auto simp: parse_response_def Let_def split: prod.splits)
qed

lemma sendMessageToGemini_Inr:
  "chat_generateContent env (length (trace w)) (history @ [(User, msg)]) level = Inr response \<Longrightarrow>
     sendMessageToGemini env w history msg level =
       (Inr (parse_response response), w\<lparr>trace := trace w @ [ChatRequest (history @ [(User, msg)]) level]\<rparr>)"
  by (simp add: sendMessageToGemini_def Let_def)

lemma sendMessageToGemini_Inl:
  "chat_generateContent env (length (trace w)) (history @ [(User, msg)]) level = Inl e \<Longrightarrow>
     sendMessageToGemini env w history msg level =
       (Inl e, w\<lparr>trace := trace w @ [ChatRequest (history @ [(User, msg)]) level]\<rparr>)"
  by (simp add: sendMessageToGemini_def Let_def)

text \<open>
  C10. When the service answers, the wrapper never returns an empty text together with a
  mentor status; a response that declares a status (one \<open>updateMentorStatus\<close> call or
  more) and has no text part with text comes back with the fixed sentence; and the
  status returned is the one of the last \<open>updateMentorStatus\<close> call, none when there is
  no such call.
\<close>

theorem wrapper_status_and_text:
  assumes "chat_generateContent env (length (trace w)) (history @ [(User, msg)]) level = Inr response"
  shows "\<exists>r w'. sendMessageToGemini env w history msg level = (Inr r, w')
           \<and> (mentorStatus r \<noteq> None \<longrightarrow> resp_text r \<noteq> [])
           \<and> (mentor_declarations response \<noteq> [] \<and> \<not> has_text response \<longrightarrow>
                resp_text r = ''I have updated my mentor status and am analyzing your logic further.'')
           \<and> mentorStatus r =
                (if mentor_declarations response = [] then None
                 else Some (last (mentor_declarations response)))"
  using sendMessageToGemini_Inr[OF assms] parse_text_nonempty[of response]
    parse_text_fixed[of response] parse_mentorStatus[of response]
  by auto

theorem wrapper_status_and_text_witness:
  "fst (sendMessageToGemini
          (const_env (Inr (status_response None [Satisfied, Searching])) (Inl (api_error None None)) None)
          (idle_world ''hello'') [] ''hello'' BEGINNER)
     = Inr \<lparr>resp_text = ''I have updated my mentor status and am analyzing your logic further.'',
            mentorStatus = Some Searching, imagePart = None\<rparr>"
proof -
  let ?resp = "status_response None [Satisfied, Searching]"
  let ?env = "const_env (Inr ?resp) (Inl (api_error None None)) None"
  have a: "chat_generateContent ?env (length (trace (idle_world ''hello''))) ([] @ [(User, ''hello'')]) BEGINNER = Inr ?resp"
    by (simp add: const_env_def)
  have d: "mentor_declarations ?resp = [Satisfied, Searching]"
    by (simp add: mentor_declarations_def status_response_def parts_or_empty_def first_parts_def map_filter_simps)
  have t: "\<not> has_text ?resp"
    by (simp add: has_text_def status_response_def parts_or_empty_def first_parts_def)
  from wrapper_status_and_text[OF a] d t obtain r w' where
    s: "sendMessageToGemini ?env (idle_world ''hello'') [] ''hello'' BEGINNER = (Inr r, w')"
    and r1: "resp_text r = ''I have updated my mentor status and am analyzing your logic further.''"
    and r2: "mentorStatus r = Some Searching"
    by auto
  from s have "r = parse_response ?resp" by (simp add: sendMessageToGemini_def Let_def const_env_def)
  then have "imagePart r = None"
    by (simp add: parse_response_def Let_def status_response_def parts_or_empty_def first_parts_def functionCalls_of_def split: prod.splits)
  with r1 r2 have "r = \<lparr>resp_text = ''I have updated my mentor status and am analyzing your logic further.'',
            mentorStatus = Some Searching, imagePart = None\<rparr>" by (cases r) simp
  with s show ?thesis by simp
qed

section \<open>The turn\<close>

lemma handleSendMessage_starts:
  "turn_starts w customPrompt \<Longrightarrow>
     handleSendMessage env w customPrompt = run_turn env w customPrompt (messageText_of customPrompt (input w))"
  by (auto simp: turn_starts_def handleSendMessage_def Let_def)

lemma run_turn_failure:
  assumes "chat_outcome env w customPrompt = Inl e"
  shows "run_turn env w customPrompt (messageText_of customPrompt (input w)) =
           w\<lparr>messages := messages w @ [\<lparr>role = User, msg_text = messageText_of customPrompt (input w)\<rparr>, error_message],
             input := (if truthy customPrompt then input w else []),
             isLoading := False,
             trace := trace w @ [ChatRequest (map (\<lambda>m. (role m, msg_text m)) (messages w)
                                   @ [(User, messageText_of customPrompt (input w))]) (knowledgeLevel w)]\<rparr>"
  using assms
  by (simp add: run_turn_def chat_outcome_def Let_def sendMessageToGemini_def)

lemma run_turn_success:
  assumes "chat_outcome env w customPrompt = Inr response"
  shows "run_turn env w customPrompt (messageText_of customPrompt (input w)) =
           (let r = parse_response response;
                w5 = w\<lparr>input := (if truthy customPrompt then input w else []),
                        isLoading := True,
                        trace := trace w @ [ChatRequest (map (\<lambda>m. (role m, msg_text m)) (messages w)
                                   @ [(User, messageText_of customPrompt (input w))]) (knowledgeLevel w)],
                        messages := messages w @
                          [\<lparr>role = User, msg_text = messageText_of customPrompt (input w)\<rparr>,
                           \<lparr>role = Model, msg_text = (if resp_text r \<noteq> [] then resp_text r
                                                      else ''I see. Let's explore the structure of this logic.'')\<rparr>]\<rparr>;
                w6 = extractVisualization env w5 (resp_text r) (imagePart r)
            in (case mentorStatus r of
                  Some Satisfied \<Rightarrow> w6\<lparr>mentorMode := True\<rparr>
                | Some Searching \<Rightarrow> w6\<lparr>mentorMode := False\<rparr>
                | None \<Rightarrow> w6)\<lparr>isLoading := False\<rparr>)"
  using assms
  by (simp add: run_turn_def chat_outcome_def Let_def sendMessageToGemini_def
           split: option.splits MentorStatus.splits)

lemma run_turn_isLoading: "isLoading (run_turn env w customPrompt mt) = False"
  by (simp add: run_turn_def Let_def split: prod.splits)

text \<open>
  C2. After a turn whose chat request succeeds, the mentor mode follows the status the
  response declares (the last one when it declares several): satisfied sets it,
  searching clears it, and without a declaration it stays as it was.
\<close>

theorem mentor_mode_follows_declaration:
  assumes "turn_starts w customPrompt" "chat_outcome env w customPrompt = Inr response"
  shows "mentorMode (handleSendMessage env w customPrompt) =
           (if mentor_declarations response = [] then mentorMode w
            else last (mentor_declarations response) = Satisfied)"
proof -
  have "mentorMode (run_turn env w customPrompt (messageText_of customPrompt (input w))) =
          (case mentorStatus (parse_response response) of
             Some Satisfied \<Rightarrow> True | Some Searching \<Rightarrow> False | None \<Rightarrow> mentorMode w)"
    unfolding run_turn_success[OF assms(2)]
    by (simp add: Let_def extractVisualization_keeps split: option.splits MentorStatus.splits)
  also have "\<dots> = (if mentor_declarations response = [] then mentorMode w
            else last (mentor_declarations response) = Satisfied)"
    by (cases "last (mentor_declarations response)") (simp_all add: parse_mentorStatus)
  finally show ?thesis by (simp add: handleSendMessage_starts[OF assms(1)])
qed

theorem mentor_mode_follows_declaration_witness:
  "mentorMode (handleSendMessage
      (const_env (Inr (status_response (Some ''Well done.'') [Satisfied])) (Inl (api_error None None)) None)
      (idle_world ''Explain recursion'') None)
   \<and> \<not> mentorMode (handleSendMessage
      (const_env (Inr (status_response (Some ''Go on.'') [Searching])) (Inl (api_error None None)) None)
      ((idle_world ''Explain recursion'')\<lparr>mentorMode := True\<rparr>) None)
   \<and> mentorMode (handleSendMessage
      (const_env (Inr (text_response ''Go on.'')) (Inl (api_error None None)) None)
      ((idle_world ''Explain recursion'')\<lparr>mentorMode := True\<rparr>) None)"
proof -
  let ?e = "Inl (api_error None None)"
  have ts: "turn_starts ((idle_world ''Explain recursion'')\<lparr>mentorMode := True\<rparr>) None"
    by code_simp
  have ts0: "turn_starts (idle_world ''Explain recursion'') None"
    by code_simp
  have c: "chat_outcome (const_env (Inr r) ?e None) w None = Inr r" for r w
    by (simp add: chat_outcome_def const_env_def)
  have d1: "mentor_declarations (status_response t [st]) = [st]" for t st
    by (simp add: mentor_declarations_def status_response_def parts_or_empty_def first_parts_def map_filter_simps)
  have d2: "mentor_declarations (text_response t) = []" for t
    by (simp add: mentor_declarations_def text_response_def parts_or_empty_def first_parts_def map_filter_simps)
  show ?thesis
    using mentor_mode_follows_declaration[OF ts0 c, of "status_response (Some ''Well done.'') [Satisfied]"]
      mentor_mode_follows_declaration[OF ts c, of "status_response (Some ''Go on.'') [Searching]"]
      mentor_mode_follows_declaration[OF ts c, of "text_response ''Go on.''"]
    by (simp add: d1 d2)
qed

text \<open>
  C4. A turn that starts always ends with the loading flag cleared, whatever the chat
  service does. When the chat request fails, the history grows by the user message and
  exactly one assistant message with the fixed error text, the mentor mode and the feed
  stay as they were, and the one request made is the chat request.
\<close>

theorem chat_failure_resolves_to_idle:
  assumes "turn_starts w customPrompt"
  shows "isLoading (handleSendMessage env w customPrompt) = False
         \<and> (\<forall>e. chat_outcome env w customPrompt = Inl e \<longrightarrow>
               messages (handleSendMessage env w customPrompt) =
                 messages w @ [\<lparr>role = User, msg_text = messageText_of customPrompt (input w)\<rparr>,
                               \<lparr>role = Model, msg_text = ''Logical connection reset. Please rephrase.''\<rparr>]
               \<and> mentorMode (handleSendMessage env w customPrompt) = mentorMode w
               \<and> visualization (handleSendMessage env w customPrompt) = visualization w
               \<and> new_events w (handleSendMessage env w customPrompt) =
                   [ChatRequest (map (\<lambda>m. (role m, msg_text m)) (messages w)
                                   @ [(User, messageText_of customPrompt (input w))]) (knowledgeLevel w)])"
  unfolding handleSendMessage_starts[OF assms]
  by (auto simp: run_turn_isLoading run_turn_failure new_events_def error_message_def)

theorem chat_failure_resolves_to_idle_witness:
  "\<not> isLoading (handleSendMessage
        (const_env (Inl (api_error (Some 500) (Some ''boom''))) (Inl (api_error None None)) None)
        (idle_world ''Explain recursion'') None)
   \<and> messages (handleSendMessage
        (const_env (Inl (api_error (Some 500) (Some ''boom''))) (Inl (api_error None None)) None)
        (idle_world ''Explain recursion'') None)
      = [\<lparr>role = Model, msg_text = ''Greetings.''\<rparr>,
         \<lparr>role = User, msg_text = ''Explain recursion''\<rparr>,
         \<lparr>role = Model, msg_text = ''Logical connection reset. Please rephrase.''\<rparr>]"
proof -
  let ?env = "const_env (Inl (api_error (Some 500) (Some ''boom''))) (Inl (api_error None None)) None"
  have ts: "turn_starts (idle_world ''Explain recursion'') None"
    by code_simp
  have c: "chat_outcome ?env (idle_world ''Explain recursion'') None = Inl (api_error (Some 500) (Some ''boom''))"
    by (simp add: chat_outcome_def const_env_def)
  from chat_failure_resolves_to_idle[OF ts, of ?env] c show ?thesis
    by (simp add: idle_world_def messageText_of_def)
qed

section \<open>One image request\<close>

lemma generateImage_events:
  assumes "generateImage env w prompt imageSize = (r, w')"
  shows "\<exists>evs. w' = w\<lparr>trace := trace w @ ImageRequest ''gemini-3-pro-image-preview'' prompt (Some imageSize) # evs\<rparr>
               \<and> list_all is_ImageRequest evs"
  using assms
  by (auto simp: generateImage_def Let_def is_ImageRequest_def split: sum.splits if_splits)

lemma conceptual_step_eq:
  assumes "image_call env w cMatch = (r, w2)"
  shows "conceptual_step env (w, newItems) cMatch =
           (w2\<lparr>isGeneratingImage := False,
               trace := trace w2 @
                 (case r of Inl e \<Rightarrow> if is403 e \<and> window_aistudio env \<noteq> None then [OpenSelectKey] else []
                          | Inr img \<Rightarrow> [])
                 @ [SetIsGeneratingImage False]\<rparr>,
            newItems @ (case r of Inr (Some img) \<Rightarrow> if img \<noteq> [] then [image_item ConceptId img] else []
                                | _ \<Rightarrow> []))"
  using assms
  by (auto simp: conceptual_step_def image_call_def Let_def split: sum.splits option.splits)

text \<open>
  C3, as the code has it. For every match the flag of image generation is false again
  after the step, on every path, and the step's events are bracketed by the setting and
  the clearing of the flag. When the request fails (with any error) or returns no image
  or an empty one, the step pushes no item. When the failure tells of a denied permission
  and \<open>window.aistudio\<close> is present, \<open>openSelectKey\<close> is called before the flag is
  cleared; when the failure does not tell so, or \<open>window.aistudio\<close> is absent, it is
  not called.
\<close>

theorem image_failure_is_contained:
  assumes "image_call env w cMatch = (r, w2)"
    and "conceptual_step env (w, newItems) cMatch = (w', newItems')"
  shows "isGeneratingImage w' = False
         \<and> (\<exists>evs. new_events w w' = SetIsGeneratingImage True # evs @ [SetIsGeneratingImage False])
         \<and> ((\<exists>e. r = Inl e) \<or> r = Inr None \<or> r = Inr (Some []) \<longrightarrow> newItems' = newItems)
         \<and> (\<forall>e. r = Inl e \<and> is403 e \<and> window_aistudio env \<noteq> None \<longrightarrow>
               (\<exists>evs. new_events w w' = evs @ [OpenSelectKey, SetIsGeneratingImage False]))
         \<and> (\<forall>e. r = Inl e \<and> (\<not> is403 e \<or> window_aistudio env = None) \<longrightarrow>
               OpenSelectKey \<notin> set (new_events w w'))"
proof -
  from assms(1) obtain evs where
    w2: "w2 = w\<lparr>isGeneratingImage := True,
               trace := trace w @ SetIsGeneratingImage True
                          # ImageRequest ''gemini-3-pro-image-preview'' (trim cMatch) (Some ''1K'') # evs\<rparr>"
    and evs: "list_all is_ImageRequest evs"
    unfolding image_call_def by (auto dest!: generateImage_events)
  let ?key = "(case r of Inl e \<Rightarrow> if is403 e \<and> window_aistudio env \<noteq> None then [OpenSelectKey] else []
                       | Inr img \<Rightarrow> [])"
  let ?req = "ImageRequest ''gemini-3-pro-image-preview'' (trim cMatch) (Some ''1K'')"
  from assms(2) conceptual_step_eq[OF assms(1), of newItems]
  have w': "w' = w2\<lparr>isGeneratingImage := False, trace := trace w2 @ ?key @ [SetIsGeneratingImage False]\<rparr>"
    and items: "newItems' = newItems @ (case r of Inr (Some img) \<Rightarrow> if img \<noteq> [] then [image_item ConceptId img] else []
                                | _ \<Rightarrow> [])"
    by simp_all
  from w' w2 have ne: "new_events w w' = SetIsGeneratingImage True # (?req # evs @ ?key) @ [SetIsGeneratingImage False]"
    by (simp add: new_events_def)
  from evs have nk: "OpenSelectKey \<notin> set evs"
    by (auto simp: list_all_iff is_ImageRequest_def)
  have c1: "isGeneratingImage w' = False" using w' by simp
  have c2: "\<exists>evs. new_events w w' = SetIsGeneratingImage True # evs @ [SetIsGeneratingImage False]"
    using ne by blast
  have c3: "(\<exists>e. r = Inl e) \<or> r = Inr None \<or> r = Inr (Some []) \<longrightarrow> newItems' = newItems"
    using items by auto
  have c4: "\<forall>e. r = Inl e \<and> is403 e \<and> window_aistudio env \<noteq> None \<longrightarrow>
               (\<exists>evs. new_events w w' = evs @ [OpenSelectKey, SetIsGeneratingImage False])"
  proof (intro allI impI)
    fix e assume "r = Inl e \<and> is403 e \<and> window_aistudio env \<noteq> None"
    with ne have "new_events w w' = (SetIsGeneratingImage True # ?req # evs) @ [OpenSelectKey, SetIsGeneratingImage False]"
      by simp
    then show "\<exists>evs. new_events w w' = evs @ [OpenSelectKey, SetIsGeneratingImage False]" by blast
  qed
  have c5: "\<forall>e. r = Inl e \<and> (\<not> is403 e \<or> window_aistudio env = None) \<longrightarrow> OpenSelectKey \<notin> set (new_events w w')"
    using ne nk by auto
  from c1 c2 c3 c4 c5 show ?thesis by blast
qed

theorem image_failure_is_contained_witness:
  "isGeneratingImage (fst (conceptual_step
       (const_env (Inr (text_response ''ok'')) (Inl (api_error (Some 403) (Some ''Permission denied''))) (Some (AIStudio True)))
       (idle_world [], []) '' x '')) = False
   \<and> snd (conceptual_step
       (const_env (Inr (text_response ''ok'')) (Inl (api_error (Some 403) (Some ''Permission denied''))) (Some (AIStudio True)))
       (idle_world [], []) '' x '') = []
   \<and> (\<exists>evs. new_events (idle_world [])
         (fst (conceptual_step
           (const_env (Inr (text_response ''ok'')) (Inl (api_error (Some 403) (Some ''Permission denied''))) (Some (AIStudio True)))
           (idle_world [], []) '' x ''))
        = evs @ [OpenSelectKey, SetIsGeneratingImage False])"
proof -
  let ?e = "api_error (Some 403) (Some ''Permission denied'')"
  let ?env = "const_env (Inr (text_response ''ok'')) (Inl ?e) (Some (AIStudio True))"
  have r: "fst (image_call ?env (idle_world []) '' x '') = Inl ?e"
    by (simp add: image_call_def generateImage_def const_env_def Let_def is403_def api_error_def)
  have e: "is403 ?e" by (simp add: is403_def api_error_def)
  have a: "window_aistudio ?env \<noteq> None" by (simp add: const_env_def)
  have i: "image_call ?env (idle_world []) '' x '' = (Inl ?e, snd (image_call ?env (idle_world []) '' x ''))"
    using r by (metis prod.collapse)
  have s: "conceptual_step ?env (idle_world [], []) '' x '' =
             (fst (conceptual_step ?env (idle_world [], []) '' x ''), snd (conceptual_step ?env (idle_world [], []) '' x ''))"
    by simp
  from image_failure_is_contained[OF i s] e a show ?thesis by blast
qed

text \<open>
  The claim as stated fails where \<open>window.aistudio\<close> is absent: the request fails with
  status 403, and the step ends without a call of \<open>openSelectKey\<close>.
\<close>

theorem key_selection_needs_aistudio_counterexample:
  "fst (image_call
         (const_env (Inr (text_response ''ok'')) (Inl (api_error (Some 403) (Some ''Permission denied''))) None)
         (idle_world []) ''x'')
     = Inl (api_error (Some 403) (Some ''Permission denied''))
   \<and> is403 (api_error (Some 403) (Some ''Permission denied''))
   \<and> OpenSelectKey \<notin> set (trace (fst (conceptual_step
         (const_env (Inr (text_response ''ok'')) (Inl (api_error (Some 403) (Some ''Permission denied''))) None)
         (idle_world [], []) ''x'')))
   \<and> OpenSelectKey \<notin> set (trace (extractVisualization
         (const_env (Inr (text_response ''ok'')) (Inl (api_error (Some 403) (Some ''Permission denied''))) None)
         (idle_world []) ''[CONCEPTUAL_VISUAL: x]'' None))"
  by code_simp

section \<open>The check for requests of finished code\<close>

lemma ci_prefix_append: "ci_equal v x \<Longrightarrow> ci_prefix x (v @ s)"
proof -
  assume a: "ci_equal v x"
  then have "length v = length x" unfolding ci_equal_def by (metis length_map)
  with a show ?thesis by (simp add: ci_prefix_def ci_equal_def)
qed

lemma ci_prefixD: "ci_prefix x s \<Longrightarrow> \<exists>v s'. s = v @ s' \<and> ci_equal v x"
proof -
  assume "ci_prefix x s"
  then have "s = take (length x) s @ drop (length x) s \<and> ci_equal (take (length x) s) x"
    by (simp add: ci_prefix_def ci_equal_def)
  then show ?thesis by blast
qed

lemma ci_equal_length: "ci_equal v x \<Longrightarrow> length v = length x"
  unfolding ci_equal_def by (metis length_map)

lemma star_greedy_complete:
  "(\<forall>c\<in>set ws. P c) \<Longrightarrow> k s' \<noteq> None \<Longrightarrow> star_greedy P k (ws @ s') \<noteq> None"
proof (induction ws)
  case Nil
  then show ?case by (cases s') (auto split: option.splits)
next
  case (Cons c ws)
  then show ?case by (auto split: option.splits)
qed

lemma leftmost_complete: "m s' \<noteq> None \<Longrightarrow> leftmost m (pre @ s') \<noteq> None"
proof (induction pre)
  case Nil
  then show ?case by (cases s') (auto split: option.splits)
next
  case (Cons c pre)
  then show ?case by (auto split: option.splits)
qed

lemma alt_ci_complete:
  "x \<in> set as \<Longrightarrow> ci_prefix x s \<Longrightarrow> k (drop (length x) s) \<noteq> None \<Longrightarrow> alt_ci as k s \<noteq> None"
  by (auto simp: alt_ci_None_iff)

lemma cheatRegex_test_iff: "cheatRegex_test s \<longleftrightarrow> asks_for_code s"
proof
  let ?verbs = "[''give'', ''write'', ''show'']"
  let ?nouns = "[''code'', ''answer'', ''solution'', ''full'']"
  let ?N = "alt_ci ?nouns Some :: string \<Rightarrow> string option"
  let ?K = "star_greedy (\<lambda>c. \<not> isLineTerminator c) ?N"
  {
    assume "cheatRegex_test s"
    then obtain r where "leftmost cheatRegex_at s = Some r" by (auto simp: cheatRegex_test_def)
    from leftmost_SomeD[OF this] obtain pre s1 where s: "s = pre @ s1" and m: "cheatRegex_at s1 = Some r" by blast
    from m have "alt_ci ?verbs ?K s1 = Some r" by (simp add: cheatRegex_at_def)
    from alt_ci_SomeD[OF this] obtain x where x: "x \<in> set ?verbs" "ci_prefix x s1" and k: "?K (drop (length x) s1) = Some r" by blast
    from ci_prefixD[OF x(2)] obtain v s2 where s1: "s1 = v @ s2" and v: "ci_equal v x" by blast
    from ci_equal_length[OF v] s1 have d: "drop (length x) s1 = s2" by simp
    from star_greedy_SomeD[OF k[unfolded d]] obtain mid s3 where s2: "s2 = mid @ s3"
      and mid: "\<forall>c\<in>set mid. \<not> isLineTerminator c" and n: "?N s3 = Some r" by blast
    from alt_ci_SomeD[OF n] obtain y where y: "y \<in> set ?nouns" "ci_prefix y s3" by blast
    from ci_prefixD[OF y(2)] obtain n' post where s3: "s3 = n' @ post" and n': "ci_equal n' y" by blast
    from s s1 s2 s3 have "s = pre @ v @ mid @ n' @ post" by simp
    with x(1) v y(1) n' mid show "asks_for_code s" unfolding asks_for_code_def by blast
  }
  {
    assume "asks_for_code s"
    then obtain pre v mid n post x y where s: "s = pre @ v @ mid @ n @ post"
      and x: "x \<in> set ?verbs" "ci_equal v x" and y: "y \<in> set ?nouns" "ci_equal n y"
      and mid: "\<forall>c\<in>set mid. \<not> isLineTerminator c"
      unfolding asks_for_code_def by blast
    have "?N (n @ post) \<noteq> None"
      by (rule alt_ci_complete[OF y(1) ci_prefix_append[OF y(2)]]) simp
    with mid have "?K (mid @ n @ post) \<noteq> None" by (rule star_greedy_complete)
    then have "?K (drop (length x) (v @ mid @ n @ post)) \<noteq> None"
      using ci_equal_length[OF x(2)] by simp
    with x have "alt_ci ?verbs ?K (v @ mid @ n @ post) \<noteq> None"
      by (intro alt_ci_complete[OF x(1) ci_prefix_append[OF x(2)]])
    then have "cheatRegex_at (v @ mid @ n @ post) \<noteq> None" by (simp add: cheatRegex_at_def)
    then have "leftmost cheatRegex_at (pre @ v @ mid @ n @ post) \<noteq> None" by (rule leftmost_complete)
    with s show "cheatRegex_test s" by (simp add: cheatRegex_test_def)
  }
qed

lemma ws_canonicalize: "isWhiteSpace c \<Longrightarrow> canonicalize c = c"
  by (auto simp: isWhiteSpace_def canonicalize_def Let_def)

lemma verb_head_not_ws:
  assumes "x \<in> set [''give'', ''write'', ''show'']" "ci_equal v x"
  shows "v \<noteq> [] \<and> \<not> isWhiteSpace (hd v)"
proof -
  from assms(2) have l: "length v = length x" by (rule ci_equal_length)
  with assms(1) obtain a v' where v: "v = a # v'" by (cases v) auto
  have "canonicalize CHR ''g'' = CHR ''G''" "canonicalize CHR ''w'' = CHR ''W''" "canonicalize CHR ''s'' = CHR ''S''"
    by code_simp+
  with assms v have "canonicalize a \<in> {CHR ''G'', CHR ''W'', CHR ''S''}"
    by (auto simp: ci_equal_def)
  moreover have "\<not> isWhiteSpace CHR ''G''" "\<not> isWhiteSpace CHR ''W''" "\<not> isWhiteSpace CHR ''S''"
    by (simp_all add: isWhiteSpace_def)
  ultimately have "\<not> isWhiteSpace a" using ws_canonicalize[of a] by auto
  with v show ?thesis by simp
qed

lemma asks_for_code_not_blank:
  assumes "asks_for_code s"
  shows "trim s \<noteq> []"
proof -
  from assms obtain pre v mid n post x where s: "s = pre @ v @ mid @ n @ post"
    and x: "x \<in> set [''give'', ''write'', ''show'']" "ci_equal v x"
    unfolding asks_for_code_def by blast
  from verb_head_not_ws[OF x] have "hd v \<in> set v" "\<not> isWhiteSpace (hd v)" by simp_all
  with s have "\<exists>c\<in>set s. \<not> isWhiteSpace c" by auto
  then show ?thesis by (simp add: trim_Nil_iff)
qed

lemma gate_refuses:
  assumes "\<not> truthy customPrompt" "asks_for_code (input w)"
    "\<not> str_includes (toLowerCase (input w)) ''logic''"
    "\<not> str_includes (toLowerCase (input w)) ''explain''"
    "\<not> str_includes (toLowerCase (input w)) ''diagram''"
  shows "handleSendMessage env w customPrompt =
           w\<lparr>toastMessage := ''Think First! I cannot provide code directly. Let's discuss the logic.'',
             showToast := True\<rparr>"
proof -
  from assms(1) have m: "messageText_of customPrompt (input w) = input w"
    by (auto simp: truthy_def messageText_of_def split: option.splits)
  from assms(2) have "trim (input w) \<noteq> []" by (rule asks_for_code_not_blank)
  moreover from assms(2-5) have "cheat_gate (input w)" by (simp add: cheat_gate_def cheatRegex_test_iff)
  ultimately show ?thesis using assms(1) m
    by (simp add: handleSendMessage_def reject_turn_def)
qed

lemma run_turn_shape:
  "\<exists>reply evs.
     messages (run_turn env w customPrompt (messageText_of customPrompt (input w))) =
       messages w @ [\<lparr>role = User, msg_text = messageText_of customPrompt (input w)\<rparr>, reply]
     \<and> new_events w (run_turn env w customPrompt (messageText_of customPrompt (input w))) =
         ChatRequest (map (\<lambda>m. (role m, msg_text m)) (messages w)
                        @ [(User, messageText_of customPrompt (input w))]) (knowledgeLevel w) # evs
     \<and> showToast (run_turn env w customPrompt (messageText_of customPrompt (input w))) = showToast w
     \<and> toastMessage (run_turn env w customPrompt (messageText_of customPrompt (input w))) = toastMessage w"
proof (cases "chat_outcome env w customPrompt")
  case (Inl e)
  show ?thesis unfolding run_turn_failure[OF Inl] by (simp add: new_events_def)
next
  case (Inr response)
  let ?mt = "messageText_of customPrompt (input w)"
  let ?r = "parse_response response"
  let ?req = "ChatRequest (map (\<lambda>m. (role m, msg_text m)) (messages w) @ [(User, ?mt)]) (knowledgeLevel w)"
  let ?w5 = "w\<lparr>input := (if truthy customPrompt then input w else []),
                        isLoading := True,
                        trace := trace w @ [?req],
                        messages := messages w @
                          [\<lparr>role = User, msg_text = ?mt\<rparr>,
                           \<lparr>role = Model, msg_text = (if resp_text ?r \<noteq> [] then resp_text ?r
                                                      else ''I see. Let's explore the structure of this logic.'')\<rparr>]\<rparr>"
  from extractVisualization_frame[of env ?w5 "resp_text ?r" "imagePart ?r"]
  obtain b evs its tab mv where e: "extractVisualization env ?w5 (resp_text ?r) (imagePart ?r) =
      ?w5\<lparr>isGeneratingImage := b, trace := trace ?w5 @ evs, visualization := visualization ?w5 @ its,
        activeTab := tab, mobileView := mv\<rparr>" by blast
  show ?thesis
    unfolding run_turn_success[OF Inr] Let_def e
    by (cases "mentorStatus ?r"; cases "the (mentorStatus ?r)") (simp_all add: new_events_def)
qed

text \<open>
  C1, as the code has it. A typed message (no custom prompt) that asks for finished code
  on one line and holds none of the words \<open>logic\<close>, \<open>explain\<close>, \<open>diagram\<close> in any letter
  case is refused: the state comes back with the rejection notice and nothing else
  changed, so no message is appended, no request is made and the loading flag is as
  before. A custom prompt that is not blank is never refused: the user message is
  appended and the chat request is made, the notice untouched, whatever the prompt says.
  \<open>give me the full code\<close> is refused; with \<open>, explain the logic\<close> added it is not.
\<close>

theorem gate_refuses_typed_requests_for_code:
  "(\<not> truthy customPrompt \<and> asks_for_code (input w)
      \<and> \<not> str_includes (toLowerCase (input w)) ''logic''
      \<and> \<not> str_includes (toLowerCase (input w)) ''explain''
      \<and> \<not> str_includes (toLowerCase (input w)) ''diagram''
    \<longrightarrow> handleSendMessage env w customPrompt =
          w\<lparr>toastMessage := ''Think First! I cannot provide code directly. Let's discuss the logic.'',
            showToast := True\<rparr>)
   \<and> (p \<noteq> [] \<and> trim p \<noteq> []
    \<longrightarrow> (\<exists>reply evs.
           messages (handleSendMessage env w (Some p)) = messages w @ [\<lparr>role = User, msg_text = p\<rparr>, reply]
           \<and> new_events w (handleSendMessage env w (Some p)) =
               ChatRequest (map (\<lambda>m. (role m, msg_text m)) (messages w) @ [(User, p)]) (knowledgeLevel w) # evs)
        \<and> showToast (handleSendMessage env w (Some p)) = showToast w
        \<and> toastMessage (handleSendMessage env w (Some p)) = toastMessage w)
   \<and> handleSendMessage env (idle_world ''give me the full code'') None =
        (idle_world ''give me the full code'')
          \<lparr>toastMessage := ''Think First! I cannot provide code directly. Let's discuss the logic.'',
           showToast := True\<rparr>
   \<and> (\<exists>reply. messages (handleSendMessage env (idle_world ''give me the full code, explain the logic'') None) =
         messages (idle_world ''give me the full code, explain the logic'')
           @ [\<lparr>role = User, msg_text = ''give me the full code, explain the logic''\<rparr>, reply])"
proof (intro conjI impI)
  assume "\<not> truthy customPrompt \<and> asks_for_code (input w)
      \<and> \<not> str_includes (toLowerCase (input w)) ''logic''
      \<and> \<not> str_includes (toLowerCase (input w)) ''explain''
      \<and> \<not> str_includes (toLowerCase (input w)) ''diagram''"
  then show "handleSendMessage env w customPrompt =
          w\<lparr>toastMessage := ''Think First! I cannot provide code directly. Let's discuss the logic.'',
            showToast := True\<rparr>"
    by (intro gate_refuses) simp_all
next
  assume p: "p \<noteq> [] \<and> trim p \<noteq> []"
  then have m: "messageText_of (Some p) (input w) = p" by (simp add: messageText_of_def)
  from p have "turn_starts w (Some p)" by (simp add: turn_starts_def m truthy_def)
  then have h: "handleSendMessage env w (Some p) = run_turn env w (Some p) p"
    using m by (simp add: handleSendMessage_starts)
  from run_turn_shape[of env w "Some p"] m h
  show "\<exists>reply evs.
           messages (handleSendMessage env w (Some p)) = messages w @ [\<lparr>role = User, msg_text = p\<rparr>, reply]
           \<and> new_events w (handleSendMessage env w (Some p)) =
               ChatRequest (map (\<lambda>m. (role m, msg_text m)) (messages w) @ [(User, p)]) (knowledgeLevel w) # evs"
    by auto
  from run_turn_shape[of env w "Some p"] m h
  show "showToast (handleSendMessage env w (Some p)) = showToast w" by auto
  from run_turn_shape[of env w "Some p"] m h
  show "toastMessage (handleSendMessage env w (Some p)) = toastMessage w" by auto
next
  let ?w = "idle_world ''give me the full code''"
  have i: "input ?w = ''give me the full code''" by (simp add: idle_world_def)
  have "cheatRegex_test ''give me the full code''" by code_simp
  then have a: "asks_for_code (input ?w)" by (simp add: i cheatRegex_test_iff)
  have n: "\<not> str_includes (toLowerCase (input ?w)) ''logic''"
    "\<not> str_includes (toLowerCase (input ?w)) ''explain''"
    "\<not> str_includes (toLowerCase (input ?w)) ''diagram''"
    unfolding i by code_simp+
  have t: "\<not> truthy None" by (simp add: truthy_def)
  show "handleSendMessage env ?w None =
        ?w\<lparr>toastMessage := ''Think First! I cannot provide code directly. Let's discuss the logic.'',
           showToast := True\<rparr>"
    by (rule gate_refuses[OF t a n])
next
  let ?t = "''give me the full code, explain the logic''"
  let ?w = "idle_world ?t"
  have ts: "turn_starts ?w None" by code_simp
  have m: "messageText_of None (input ?w) = ?t" by (simp add: messageText_of_def idle_world_def)
  from run_turn_shape[of env ?w None] handleSendMessage_starts[OF ts, of env] m
  show "\<exists>reply. messages (handleSendMessage env ?w None) =
         messages ?w @ [\<lparr>role = User, msg_text = ?t\<rparr>, reply]"
    by auto
qed

theorem gate_refuses_typed_requests_for_code_witness:
  "handleSendMessage (const_env (Inr (text_response ''ok'')) (Inl (api_error None None)) None)
      (idle_world ''Please SHOW me the Solution'') None
     = (idle_world ''Please SHOW me the Solution'')
         \<lparr>toastMessage := ''Think First! I cannot provide code directly. Let's discuss the logic.'',
          showToast := True\<rparr>
   \<and> (\<exists>reply evs.
         messages (handleSendMessage (const_env (Inr (text_response ''ok'')) (Inl (api_error None None)) None)
                     (idle_world ''typed'') (Some ''show me the code''))
           = messages (idle_world ''typed'') @ [\<lparr>role = User, msg_text = ''show me the code''\<rparr>, reply]
         \<and> new_events (idle_world ''typed'')
             (handleSendMessage (const_env (Inr (text_response ''ok'')) (Inl (api_error None None)) None)
                (idle_world ''typed'') (Some ''show me the code''))
           = ChatRequest (map (\<lambda>m. (role m, msg_text m)) (messages (idle_world ''typed''))
                            @ [(User, ''show me the code'')]) (knowledgeLevel (idle_world ''typed'')) # evs)"
proof -
  let ?env = "const_env (Inr (text_response ''ok'')) (Inl (api_error None None)) None"
  let ?w = "idle_world ''Please SHOW me the Solution''"
  have i: "input ?w = ''Please SHOW me the Solution''" by (simp add: idle_world_def)
  have "cheatRegex_test ''Please SHOW me the Solution''" by code_simp
  then have a: "asks_for_code (input ?w)" by (simp add: i cheatRegex_test_iff)
  have n: "\<not> str_includes (toLowerCase (input ?w)) ''logic''"
    "\<not> str_includes (toLowerCase (input ?w)) ''explain''"
    "\<not> str_includes (toLowerCase (input ?w)) ''diagram''"
    unfolding i by code_simp+
  have t: "\<not> truthy None" by (simp add: truthy_def)
  have p: "''show me the code'' \<noteq> [] \<and> trim ''show me the code'' \<noteq> []" by code_simp
  from gate_refuses_typed_requests_for_code[where customPrompt = None and w = "?w" and p = "''show me the code''" and env = "?env"] t a n
  have 1: "handleSendMessage ?env ?w None = ?w\<lparr>toastMessage := ''Think First! I cannot provide code directly. Let's discuss the logic.'',
          showToast := True\<rparr>" by blast
  from gate_refuses_typed_requests_for_code[where customPrompt = None and w = "idle_world ''typed''" and p = "''show me the code''" and env = "?env"] p
  have 2: "\<exists>reply evs.
         messages (handleSendMessage ?env (idle_world ''typed'') (Some ''show me the code''))
           = messages (idle_world ''typed'') @ [\<lparr>role = User, msg_text = ''show me the code''\<rparr>, reply]
         \<and> new_events (idle_world ''typed'') (handleSendMessage ?env (idle_world ''typed'') (Some ''show me the code''))
           = ChatRequest (map (\<lambda>m. (role m, msg_text m)) (messages (idle_world ''typed''))
                            @ [(User, ''show me the code'')]) (knowledgeLevel (idle_world ''typed'')) # evs"
    by blast
  from 1 2 show ?thesis by blast
qed

text \<open>
  The claim as stated fails twice. A typed message with the verb on one line and the noun
  on the next is not refused: the user message and the answer are appended and the chat
  request is made. And a custom prompt of white space only does not proceed: the state
  comes back unchanged.
\<close>

theorem gate_line_break_and_blank_prompt_counterexample:
  "messages (handleSendMessage (const_env (Inr (text_response ''ok'')) (Inl (api_error None None)) None)
       (idle_world ''give\<newline>me the code'') None)
     = [\<lparr>role = Model, msg_text = ''Greetings.''\<rparr>,
        \<lparr>role = User, msg_text = ''give\<newline>me the code''\<rparr>,
        \<lparr>role = Model, msg_text = ''ok''\<rparr>]
   \<and> trace (handleSendMessage (const_env (Inr (text_response ''ok'')) (Inl (api_error None None)) None)
       (idle_world ''give\<newline>me the code'') None)
     = [ChatRequest [(Model, ''Greetings.''), (User, ''give\<newline>me the code'')] BEGINNER]
   \<and> showToast (handleSendMessage (const_env (Inr (text_response ''ok'')) (Inl (api_error None None)) None)
       (idle_world ''give\<newline>me the code'') None) = False
   \<and> handleSendMessage (const_env (Inr (text_response ''ok'')) (Inl (api_error None None)) None)
       (idle_world ''typed'') (Some ''  '') = idle_world ''typed''"
  by code_simp

section \<open>The diagram scan\<close>

lemma keyword_match_iff: "keyword_match c \<longleftrightarrow> starts_with_keyword c"
  unfolding keyword_match_def starts_with_keyword_def alt_ci_None_iff diagram_keywords_def
  by blast

lemma looks_like_diagram_iff: "looks_like_diagram c \<longleftrightarrow> qualifies c"
  by (simp add: looks_like_diagram_def qualifies_def keyword_match_iff str_includes_def)

lemma mermaid_loop_eq:
  "mermaid_loop s newItems = newItems @ map mermaid_item (filter qualifies (map trim (fenced_regions s)))"
proof (induction s newItems rule: mermaid_loop.induct)
  case (1 s newItems)
  show ?case
  proof (cases "leftmost mermaidRegex_at s")
    case None
    have "mermaid_loop s newItems = newItems" by (subst mermaid_loop.simps) (simp add: None)
    moreover have "fenced_regions s = []" by (subst fenced_regions.simps) (simp add: None)
    ultimately show ?thesis by simp
  next
    case (Some a)
    obtain cap rest where a: "a = (cap, rest)" by (cases a)
    let ?acc = "if looks_like_diagram (trim cap) then newItems @ [mermaid_item (trim cap)] else newItems"
    have l: "mermaid_loop s newItems = mermaid_loop rest ?acc"
      by (subst mermaid_loop.simps) (simp add: Some a)
    have f: "fenced_regions s = cap # fenced_regions rest"
      by (subst fenced_regions.simps) (simp add: Some a)
    from 1[OF Some a[symmetric]]
    have "mermaid_loop rest ?acc = ?acc @ map mermaid_item (filter qualifies (map trim (fenced_regions rest)))" .
    with l f show ?thesis by (simp add: looks_like_diagram_iff)
  qed
qed

lemma no_fence_pair_no_region:
  assumes "\<not> (\<exists>a b c. s = a @ ''```'' @ b @ ''```'' @ c)"
  shows "leftmost mermaidRegex_at s = None"
proof (cases "leftmost mermaidRegex_at s")
  case None then show ?thesis .
next
  case (Some r)
  obtain cap rest where "r = (cap, rest)" by (cases r)
  with Some mermaid_exec_SomeD[of s cap rest] obtain pre mid where
    "s = pre @ ''```'' @ (mid @ cap) @ ''```'' @ rest" by auto
  with assms show ?thesis by blast
qed

section \<open>The directive scan\<close>

lemma conceptualRegex_at_SomeD:
  assumes "conceptualRegex_at s = Some (cap, rest)"
  shows "\<exists>t body. s = t @ body @ '']'' @ rest \<and> ci_equal t ''[CONCEPTUAL_VISUAL:''
            \<and> body \<noteq> [] \<and> CHR '']'' \<notin> set body \<and> trim cap = trim body"
proof -
  from assms have p: "ci_prefix ''[CONCEPTUAL_VISUAL:'' s"
    and d: "directive_tail (drop (length ''[CONCEPTUAL_VISUAL:'') s) = Some (cap, rest)"
    by (auto simp only: conceptualRegex_at_eq split: if_splits)
  from ci_prefixD[OF p] obtain t s' where s: "s = t @ s'" and t: "ci_equal t ''[CONCEPTUAL_VISUAL:''" by blast
  from ci_equal_length[OF t] s have "drop (length ''[CONCEPTUAL_VISUAL:'') s = s'" by simp
  with d directive_tail_SomeD[of s' cap rest] obtain body where
    "s' = body @ CHR '']'' # rest" "body \<noteq> []" "CHR '']'' \<notin> set body" "trim cap = trim body" by auto
  with s t show ?thesis by auto
qed

lemma no_directive_no_match:
  assumes "\<not> (\<exists>a t body c. s = a @ t @ body @ '']'' @ c \<and> ci_equal t ''[CONCEPTUAL_VISUAL:''
                 \<and> body \<noteq> [] \<and> CHR '']'' \<notin> set body)"
  shows "leftmost conceptualRegex_at s = None"
proof (cases "leftmost conceptualRegex_at s")
  case None then show ?thesis .
next
  case (Some r)
  obtain cap rest where r: "r = (cap, rest)" by (cases r)
  from leftmost_SomeD[OF Some] r obtain a s' where s: "s = a @ s'" and m: "conceptualRegex_at s' = Some (cap, rest)" by auto
  from conceptualRegex_at_SomeD[OF m] s assms show ?thesis by blast
qed

text \<open>
  C8. A text without a fenced region (no fence followed later by another fence) and
  without a directive (tag, content that is not empty and has no closing bracket inside,
  closing bracket), handed over without an inline image, gives no diagram candidate and
  no image request, and \<open>extractVisualization\<close> returns the state as it was: nothing is
  appended to the feed and nothing is requested. The empty text is such a text.
\<close>

theorem plain_text_yields_nothing:
  assumes "\<not> (\<exists>a b c. t = a @ ''```'' @ b @ ''```'' @ c)"
    and "\<not> (\<exists>a tag body c. t = a @ tag @ body @ '']'' @ c \<and> ci_equal tag ''[CONCEPTUAL_VISUAL:''
                 \<and> body \<noteq> [] \<and> CHR '']'' \<notin> set body)"
  shows "mermaid_loop t [] = [] \<and> conceptual_prompts t = []
         \<and> extractVisualization env w t None = w
         \<and> extractVisualization env w [] None = w"
proof -
  from assms(1) have f: "leftmost mermaidRegex_at t = None" by (rule no_fence_pair_no_region)
  from assms(2) have c: "leftmost conceptualRegex_at t = None" by (rule no_directive_no_match)
  have f0: "mermaidRegex_at [] = None" by (simp add: mermaidRegex_at_def)
  have c0: "conceptualRegex_at [] = None" by (simp add: conceptualRegex_at_def)
  have 1: "mermaid_loop t [] = []" by (subst mermaid_loop.simps) (simp add: f)
  have 2: "conceptual_matchAll t = []" by (subst conceptual_matchAll.simps) (simp add: c)
  have 3: "mermaid_loop [] [] = []" by (subst mermaid_loop.simps) (simp add: f0)
  have 4: "conceptual_matchAll [] = []" by (subst conceptual_matchAll.simps) (simp add: c0)
  from 1 2 3 4 show ?thesis
    by (simp add: extractVisualization_def conceptual_prompts_def)
qed

theorem plain_text_yields_nothing_witness:
  "mermaid_loop ''Recursion calls itself.'' [] = []
   \<and> conceptual_prompts ''Recursion calls itself.'' = []
   \<and> extractVisualization (const_env (Inr (text_response ''ok'')) (Inr (image_response ''AAAA'')) None)
        (idle_world []) ''Recursion calls itself.'' None = idle_world []"
proof -
  let ?t = "''Recursion calls itself.''"
  have b: "CHR ''`'' \<notin> set ?t" by simp
  have 1: "\<not> (\<exists>a b c. ?t = a @ ''```'' @ b @ ''```'' @ c)"
  proof
    assume "\<exists>a b c. ?t = a @ ''```'' @ b @ ''```'' @ c"
    then obtain a b c where "?t = a @ ''```'' @ b @ ''```'' @ c" by blast
    then have "CHR ''`'' \<in> set ?t" by (metis in_set_conv_decomp append_Cons)
    with b show False by blast
  qed
  have r: "CHR '']'' \<notin> set ?t" by simp
  have 2: "\<not> (\<exists>a tag body c. ?t = a @ tag @ body @ '']'' @ c \<and> ci_equal tag ''[CONCEPTUAL_VISUAL:''
                 \<and> body \<noteq> [] \<and> CHR '']'' \<notin> set body)"
  proof
    assume "\<exists>a tag body c. ?t = a @ tag @ body @ '']'' @ c \<and> ci_equal tag ''[CONCEPTUAL_VISUAL:''
                 \<and> body \<noteq> [] \<and> CHR '']'' \<notin> set body"
    then obtain a tag body c where "?t = a @ tag @ body @ '']'' @ c" by blast
    then have "?t = (a @ tag @ body) @ CHR '']'' # c" by simp
    then have "CHR '']'' \<in> set ?t" by (metis in_set_conv_decomp)
    with r show False by blast
  qed
  from plain_text_yields_nothing[OF 1 2] show ?thesis by blast
qed

section \<open>Directives in a larger text\<close>

lemma directive_tail_append:
  assumes "CHR '']'' \<in> set y"
  shows "directive_tail (y @ x) = map_option (\<lambda>(cap, r). (cap, r @ x)) (directive_tail y)"
proof -
  from assms have t: "takeWhile (\<lambda>c. c \<noteq> CHR '']'') (y @ x) = takeWhile (\<lambda>c. c \<noteq> CHR '']'') y"
    by (simp add: takeWhile_append1)
  from assms have d: "dropWhile (\<lambda>c. c \<noteq> CHR '']'') (y @ x) = dropWhile (\<lambda>c. c \<noteq> CHR '']'') y @ x"
    by (simp add: dropWhile_append1)
  from assms obtain z post where dy: "dropWhile (\<lambda>c. c \<noteq> CHR '']'') y = z # post"
    by (cases "dropWhile (\<lambda>c. c \<noteq> CHR '']'') y") auto
  show ?thesis
    unfolding directive_tail_def t d dy by (simp add: Let_def)
qed

lemma ci_equal_tag_no_rb:
  assumes "ci_equal t ''[CONCEPTUAL_VISUAL:''"
  shows "CHR '']'' \<notin> set t"
proof
  assume "CHR '']'' \<in> set t"
  then have "canonicalize CHR '']'' \<in> set (map canonicalize t)" by force
  with assms have "CHR '']'' \<in> set (map canonicalize ''[CONCEPTUAL_VISUAL:'')"
    by (simp add: ci_equal_def)
  moreover have "CHR '']'' \<notin> set (map canonicalize ''[CONCEPTUAL_VISUAL:'')" by code_simp
  ultimately show False by blast
qed

lemma ci_equal_tag_hd:
  assumes "ci_equal t ''[CONCEPTUAL_VISUAL:''"
  shows "\<exists>t'. t = CHR ''['' # t'"
proof -
  from ci_equal_length[OF assms] obtain a t' where t: "t = a # t'" by (cases t) auto
  with assms have "canonicalize a = canonicalize CHR ''[''" by (simp add: ci_equal_def)
  then have "a = CHR ''[''" by simp
  with t show ?thesis by blast
qed

lemma ci_prefix_append_long: "length p \<le> length s \<Longrightarrow> ci_prefix p (s @ x) = ci_prefix p s"
  by (simp add: ci_prefix_def)

lemma drop_append_short: "length s < n \<Longrightarrow> set (drop n (s @ x)) \<subseteq> set x"
  by (auto dest: in_set_dropD)

text \<open>Appending a text without a closing bracket changes no match.\<close>

lemma conceptual_at_append_open:
  assumes "CHR '']'' \<notin> set x"
  shows "conceptualRegex_at (s @ x) = map_option (\<lambda>(cap, r). (cap, r @ x)) (conceptualRegex_at s)"
proof (cases "ci_prefix ''[CONCEPTUAL_VISUAL:'' s")
  case True
  from ci_prefixD[OF True] obtain t s' where s: "s = t @ s'" and t: "ci_equal t ''[CONCEPTUAL_VISUAL:''" by blast
  from ci_equal_length[OF t] have l: "length t = length ''[CONCEPTUAL_VISUAL:''" .
  have p: "ci_prefix ''[CONCEPTUAL_VISUAL:'' (s @ x)" unfolding s using ci_prefix_append[OF t] by simp
  have d: "drop (length ''[CONCEPTUAL_VISUAL:'') (s @ x) = s' @ x" "drop (length ''[CONCEPTUAL_VISUAL:'') s = s'"
    unfolding s using l by simp_all
  show ?thesis
  proof (cases "CHR '']'' \<in> set s'")
    case True
    then show ?thesis
      unfolding conceptualRegex_at_eq d using p \<open>ci_prefix ''[CONCEPTUAL_VISUAL:'' s\<close>
      by (simp only: if_True directive_tail_append)
  next
    case False
    with assms have "CHR '']'' \<notin> set (s' @ x)" by simp
    from directive_tail_None[OF this] directive_tail_None[OF False] show ?thesis
      unfolding conceptualRegex_at_eq d by simp
  qed
next
  case False
  have "conceptualRegex_at (s @ x) = None"
  proof (cases "ci_prefix ''[CONCEPTUAL_VISUAL:'' (s @ x)")
    case n: False
    then show ?thesis by (simp only: conceptualRegex_at_eq if_False)
  next
    case True
    have short: "length s < length ''[CONCEPTUAL_VISUAL:''"
    proof (rule ccontr)
      assume "\<not> length s < length ''[CONCEPTUAL_VISUAL:''"
      then have "length ''[CONCEPTUAL_VISUAL:'' \<le> length s" by (simp only: not_less)
      from ci_prefix_append_long[OF this, of x] True False show False by simp
    qed
    from drop_append_short[OF this]
    have "set (drop (length ''[CONCEPTUAL_VISUAL:'') (s @ x)) \<subseteq> set x" .
    with assms have "CHR '']'' \<notin> set (drop (length ''[CONCEPTUAL_VISUAL:'') (s @ x))" by blast
    from directive_tail_None[OF this] show ?thesis by (simp only: conceptualRegex_at_eq if_True True)
  qed
  moreover from False have "conceptualRegex_at s = None" by (simp only: conceptualRegex_at_eq if_False)
  ultimately show ?thesis by simp
qed

lemma conceptual_exec_append_open:
  assumes "CHR '']'' \<notin> set x"
  shows "leftmost conceptualRegex_at (pre @ x) = map_option (\<lambda>(cap, r). (cap, r @ x)) (leftmost conceptualRegex_at pre)"
proof (induction pre)
  case Nil
  have "leftmost conceptualRegex_at x = None"
  proof (cases "leftmost conceptualRegex_at x")
    case None then show ?thesis .
  next
    case (Some r)
    obtain cap rest where "r = (cap, rest)" by (cases r)
    with leftmost_SomeD[OF Some] obtain a s' where x: "x = a @ s'" and "conceptualRegex_at s' = Some (cap, rest)" by auto
    from conceptualRegex_at_SomeD[OF this(2)] x have "CHR '']'' \<in> set x" by auto
    with assms show ?thesis by blast
  qed
  moreover have "conceptualRegex_at [] = None" by (simp add: conceptualRegex_at_def)
  ultimately show ?case by simp
next
  case (Cons c pre)
  from conceptual_at_append_open[OF assms, of "c # pre"] Cons show ?case
    by (cases "conceptualRegex_at (c # pre)") auto
qed

lemma conceptual_matchAll_append_open:
  assumes "CHR '']'' \<notin> set x"
  shows "conceptual_matchAll (pre @ x) = conceptual_matchAll pre"
proof (induction pre rule: conceptual_matchAll.induct)
  case (1 s)
  show ?case
  proof (cases "leftmost conceptualRegex_at s")
    case None
    with conceptual_exec_append_open[OF assms, of s] have "leftmost conceptualRegex_at (s @ x) = None" by simp
    then have "conceptual_matchAll (s @ x) = []" by (subst conceptual_matchAll.simps) simp
    moreover have "conceptual_matchAll s = []" by (subst conceptual_matchAll.simps) (simp add: None)
    ultimately show ?thesis by simp
  next
    case (Some a)
    obtain cap rest where a: "a = (cap, rest)" by (cases a)
    with Some conceptual_exec_append_open[OF assms, of s]
    have "leftmost conceptualRegex_at (s @ x) = Some (cap, rest @ x)" by simp
    then have "conceptual_matchAll (s @ x) = cap # conceptual_matchAll (rest @ x)"
      by (subst conceptual_matchAll.simps) simp
    moreover have "conceptual_matchAll s = cap # conceptual_matchAll rest"
      by (subst conceptual_matchAll.simps) (simp add: Some a)
    moreover from 1[OF Some a[symmetric]] have "conceptual_matchAll (rest @ x) = conceptual_matchAll rest" .
    ultimately show ?thesis by simp
  qed
qed

text \<open>A tag cannot begin in one text and end in an appended one that starts with a bracket.\<close>

lemma ci_prefix_straddle:
  assumes "ci_prefix p (s @ c # y)" "length s < length p"
  shows "canonicalize c = canonicalize (p ! length s)"
proof -
  let ?u = "take (length p) (s @ c # y)"
  from assms(1) have e: "map canonicalize ?u = map canonicalize p"
    by (simp add: ci_prefix_def)
  then have "length ?u = length p" by (metis length_map)
  with assms(2) have lu: "length s < length ?u" by simp
  have "map canonicalize ?u ! length s = canonicalize (?u ! length s)" using lu by (rule nth_map)
  also have "?u ! length s = (s @ c # y) ! length s" using assms(2) by (rule nth_take)
  also have "(s @ c # y) ! length s = c" by (rule nth_append_length)
  finally have "map canonicalize ?u ! length s = canonicalize c" .
  moreover have "map canonicalize p ! length s = canonicalize (p ! length s)" using assms(2) by (rule nth_map)
  ultimately show ?thesis using e by simp
qed

lemma nth_in_tl: "0 < i \<Longrightarrow> i < length xs \<Longrightarrow> xs ! i \<in> set (tl xs)"
  by (cases xs; cases i) auto

lemma tag_no_straddle:
  assumes "s \<noteq> []" "\<not> ci_prefix ''[CONCEPTUAL_VISUAL:'' s"
  shows "\<not> ci_prefix ''[CONCEPTUAL_VISUAL:'' (s @ CHR ''['' # y)"
proof
  let ?tag = "''[CONCEPTUAL_VISUAL:''"
  assume a: "ci_prefix ?tag (s @ CHR ''['' # y)"
  have short: "length s < length ?tag"
  proof (rule ccontr)
    assume "\<not> length s < length ?tag"
    then have "length ?tag \<le> length s" by (simp only: not_less)
    from ci_prefix_append_long[OF this, of "CHR ''['' # y"] a assms(2) show False by simp
  qed
  from ci_prefix_straddle[OF a short] have "canonicalize (?tag ! length s) = CHR ''[''" by simp
  then have "?tag ! length s = CHR ''[''" by simp
  moreover from assms(1) have "0 < length s" by simp
  from nth_in_tl[OF this short] have "?tag ! length s \<in> set (tl ?tag)" .
  moreover have "CHR ''['' \<notin> set (tl ?tag)" by simp
  ultimately show False by simp
qed

lemma conceptual_at_append_closed:
  assumes "s \<noteq> []" "\<not> (ci_prefix ''[CONCEPTUAL_VISUAL:'' s \<and> CHR '']'' \<notin> set s)"
    and "y = [] \<or> hd y = CHR ''[''"
  shows "conceptualRegex_at (s @ y) = map_option (\<lambda>(cap, r). (cap, r @ y)) (conceptualRegex_at s)"
proof (cases "ci_prefix ''[CONCEPTUAL_VISUAL:'' s")
  case True
  from ci_prefixD[OF True] obtain t s' where s: "s = t @ s'" and t: "ci_equal t ''[CONCEPTUAL_VISUAL:''" by blast
  from ci_equal_length[OF t] have l: "length t = length ''[CONCEPTUAL_VISUAL:''" .
  from True assms(2) have "CHR '']'' \<in> set s" by blast
  with s ci_equal_tag_no_rb[OF t] have rb: "CHR '']'' \<in> set s'" by auto
  have p: "ci_prefix ''[CONCEPTUAL_VISUAL:'' (s @ y)" unfolding s using ci_prefix_append[OF t] by simp
  have d: "drop (length ''[CONCEPTUAL_VISUAL:'') (s @ y) = s' @ y" "drop (length ''[CONCEPTUAL_VISUAL:'') s = s'"
    unfolding s using l by simp_all
  show ?thesis
    unfolding conceptualRegex_at_eq d using p True rb
    by (simp only: if_True directive_tail_append)
next
  case False
  have "\<not> ci_prefix ''[CONCEPTUAL_VISUAL:'' (s @ y)"
  proof (cases y)
    case Nil
    with False show ?thesis by simp
  next
    case (Cons c y')
    with assms(3) have "y = CHR ''['' # y'" by simp
    with tag_no_straddle[OF assms(1) False, of y'] show ?thesis by simp
  qed
  with False show ?thesis by (simp only: conceptualRegex_at_eq if_False option.map)
qed

lemma conceptual_exec_append_closed:
  assumes "\<not> dangling pre" "y = [] \<or> hd y = CHR ''[''"
  shows "leftmost conceptualRegex_at (pre @ y) =
           (case leftmost conceptualRegex_at pre of
              Some (cap, r) \<Rightarrow> Some (cap, r @ y)
            | None \<Rightarrow> leftmost conceptualRegex_at y)"
  using assms(1)
proof (induction pre)
  case Nil
  have "conceptualRegex_at [] = None" by (simp add: conceptualRegex_at_def)
  then show ?case by simp
next
  case (Cons c pre)
  then have nd: "\<not> (ci_prefix ''[CONCEPTUAL_VISUAL:'' (c # pre) \<and> CHR '']'' \<notin> set (c # pre))"
    and ih: "leftmost conceptualRegex_at (pre @ y) =
           (case leftmost conceptualRegex_at pre of
              Some (cap, r) \<Rightarrow> Some (cap, r @ y)
            | None \<Rightarrow> leftmost conceptualRegex_at y)"
    by simp_all
  have "c # pre \<noteq> []" by simp
  from conceptual_at_append_closed[OF this nd assms(2)] ih show ?case
    by (cases "conceptualRegex_at (c # pre)") auto
qed

lemma dangling_suffix: "dangling (drop n s) \<Longrightarrow> dangling s"
proof (induction s arbitrary: n)
  case Nil then show ?case by simp
next
  case (Cons c s)
  then show ?case by (cases n) auto
qed

lemma conceptual_exec_rest_suffix:
  assumes "leftmost conceptualRegex_at s = Some (cap, rest)"
  shows "\<exists>n. rest = drop n s"
proof -
  from leftmost_SomeD[OF assms] obtain a s' where s: "s = a @ s'" and m: "conceptualRegex_at s' = Some (cap, rest)" by blast
  from conceptualRegex_at_SomeD[OF m] obtain t body where "s' = t @ body @ '']'' @ rest" by blast
  with s have "s = (a @ t @ body @ '']'') @ rest" by simp
  then have "rest = drop (length (a @ t @ body @ '']'')) s" by (metis append_eq_conv_conj)
  then show ?thesis by blast
qed

lemma conceptual_matchAll_append_closed:
  assumes "y = [] \<or> hd y = CHR ''[''"
  shows "\<not> dangling pre \<Longrightarrow> conceptual_matchAll (pre @ y) = conceptual_matchAll pre @ conceptual_matchAll y"
proof (induction pre rule: conceptual_matchAll.induct)
  case (1 s)
  show ?case
  proof (cases "leftmost conceptualRegex_at s")
    case None
    with conceptual_exec_append_closed[OF "1.prems" assms]
    have "leftmost conceptualRegex_at (s @ y) = leftmost conceptualRegex_at y" by simp
    then have "conceptual_matchAll (s @ y) = conceptual_matchAll y"
      by (subst conceptual_matchAll.simps, subst (2) conceptual_matchAll.simps) simp
    moreover have "conceptual_matchAll s = []" by (subst conceptual_matchAll.simps) (simp add: None)
    ultimately show ?thesis by simp
  next
    case (Some a)
    obtain cap rest where a: "a = (cap, rest)" by (cases a)
    with Some conceptual_exec_append_closed[OF "1.prems" assms]
    have "leftmost conceptualRegex_at (s @ y) = Some (cap, rest @ y)" by simp
    then have "conceptual_matchAll (s @ y) = cap # conceptual_matchAll (rest @ y)"
      by (subst conceptual_matchAll.simps) simp
    moreover have "conceptual_matchAll s = cap # conceptual_matchAll rest"
      by (subst conceptual_matchAll.simps) (simp add: Some a)
    moreover have "\<not> dangling rest"
      using conceptual_exec_rest_suffix[of s cap rest] Some a "1.prems" dangling_suffix by blast
    with 1(1)[OF Some a[symmetric]] have "conceptual_matchAll (rest @ y) = conceptual_matchAll rest @ conceptual_matchAll y" .
    ultimately show ?thesis by simp
  qed
qed

lemma conceptual_matchAll_directive:
  assumes "ci_equal t ''[CONCEPTUAL_VISUAL:''" "body \<noteq> []" "CHR '']'' \<notin> set body"
  shows "\<exists>cap. conceptual_matchAll (t @ body @ '']'' @ post) = cap # conceptual_matchAll post \<and> trim cap = trim body"
proof -
  from ci_equal_length[OF assms(1)]
  have d: "drop (length ''[CONCEPTUAL_VISUAL:'') (t @ body @ '']'' @ post) = body @ CHR '']'' # post" by simp
  from directive_tail_Some[OF assms(2,3), of post] obtain cap where
    c: "directive_tail (body @ CHR '']'' # post) = Some (cap, post)" and tr: "trim cap = trim body" by blast
  have "conceptualRegex_at (t @ body @ '']'' @ post) = Some (cap, post)"
    unfolding conceptualRegex_at_eq d using ci_prefix_append[OF assms(1), of "body @ '']'' @ post"] c
    by (simp only: if_True)
  moreover from ci_equal_tag_hd[OF assms(1)] obtain t' where "t = CHR ''['' # t'" by blast
  ultimately have "leftmost conceptualRegex_at (t @ body @ '']'' @ post) = Some (cap, post)" by simp
  then have "conceptual_matchAll (t @ body @ '']'' @ post) = cap # conceptual_matchAll post"
    by (subst conceptual_matchAll.simps) simp
  with tr show ?thesis by blast
qed

text \<open>
  C6, as the code has it. A directive is the tag \<open>[CONCEPTUAL_VISUAL:\<close> in any letter case, a content that
  is not empty and runs up to the first closing bracket, and that bracket. Wherever a
  directive stands behind a text without a dangling directive (one whose content would
  run on into it), it yields exactly one image request, whose prompt is the trimmed
  content, between the requests of the text before and those of the text behind. A tag
  with no closing bracket anywhere behind it yields nothing and changes nothing about the
  requests of the text before it. The scan is a total function: it returns a list for
  every text. \<open>Use [CONCEPTUAL_VISUAL: a red cube] here\<close> yields the one prompt
  \<open>a red cube\<close>.
\<close>

theorem directive_yields_one_request:
  "(ci_equal t ''[CONCEPTUAL_VISUAL:'' \<and> body \<noteq> [] \<and> CHR '']'' \<notin> set body \<and> \<not> dangling pre
      \<longrightarrow> conceptual_prompts (pre @ t @ body @ '']'' @ post) =
            conceptual_prompts pre @ trim body # conceptual_prompts post)
   \<and> (ci_equal t ''[CONCEPTUAL_VISUAL:'' \<and> CHR '']'' \<notin> set rest
      \<longrightarrow> conceptual_prompts (pre @ t @ rest) = conceptual_prompts pre)
   \<and> conceptual_prompts ''Use [CONCEPTUAL_VISUAL: a red cube] here'' = [''a red cube'']"
proof (intro conjI impI)
  assume a: "ci_equal t ''[CONCEPTUAL_VISUAL:'' \<and> body \<noteq> [] \<and> CHR '']'' \<notin> set body \<and> \<not> dangling pre"
  then have t: "ci_equal t ''[CONCEPTUAL_VISUAL:''" and b: "body \<noteq> []" "CHR '']'' \<notin> set body"
    and nd: "\<not> dangling pre" by simp_all
  from ci_equal_tag_hd[OF t] have h: "t @ body @ '']'' @ post = [] \<or> hd (t @ body @ '']'' @ post) = CHR ''[''"
    by auto
  from conceptual_matchAll_directive[OF t b, of post] obtain cap where
    c: "conceptual_matchAll (t @ body @ '']'' @ post) = cap # conceptual_matchAll post" and tr: "trim cap = trim body"
    by blast
  from conceptual_matchAll_append_closed[OF h nd] c tr
  show "conceptual_prompts (pre @ t @ body @ '']'' @ post) =
            conceptual_prompts pre @ trim body # conceptual_prompts post"
    by (simp add: conceptual_prompts_def)
next
  assume a: "ci_equal t ''[CONCEPTUAL_VISUAL:'' \<and> CHR '']'' \<notin> set rest"
  with ci_equal_tag_no_rb[of t] have "CHR '']'' \<notin> set (t @ rest)" by simp
  from conceptual_matchAll_append_open[OF this, of pre]
  show "conceptual_prompts (pre @ t @ rest) = conceptual_prompts pre"
    by (simp add: conceptual_prompts_def)
next
  show "conceptual_prompts ''Use [CONCEPTUAL_VISUAL: a red cube] here'' = [''a red cube'']"
    by code_simp
qed

theorem directive_yields_one_request_witness:
  "conceptual_prompts (''See [1], then '' @ ''[Conceptual_Visual:'' @ ''  a tree '' @ '']'' @ '' and [CONCEPTUAL_VISUAL: open'')
     = [''a tree'']
   \<and> conceptual_prompts (''[CONCEPTUAL_VISUAL: a] then '' @ ''[conceptual_visual:'' @ '' never closed'')
     = [''a'']"
proof -
  have t: "ci_equal ''[Conceptual_Visual:'' ''[CONCEPTUAL_VISUAL:''" by code_simp
  have t2: "ci_equal ''[conceptual_visual:'' ''[CONCEPTUAL_VISUAL:''" by code_simp
  have b: "''  a tree '' \<noteq> [] \<and> CHR '']'' \<notin> set ''  a tree ''" by simp
  have nd: "\<not> dangling ''See [1], then ''" by code_simp
  have r: "CHR '']'' \<notin> set '' never closed''" by simp
  have e1: "conceptual_prompts ''See [1], then '' = []" by code_simp
  have e2: "conceptual_prompts '' and [CONCEPTUAL_VISUAL: open'' = []" by code_simp
  have e3: "trim ''  a tree '' = ''a tree''" by code_simp
  have e4: "conceptual_prompts ''[CONCEPTUAL_VISUAL: a] then '' = [''a'']" by code_simp
  from directive_yields_one_request[where t = "''[Conceptual_Visual:''" and body = "''  a tree ''"
      and pre = "''See [1], then ''" and post = "'' and [CONCEPTUAL_VISUAL: open''"] t b nd
  have 1: "conceptual_prompts (''See [1], then '' @ ''[Conceptual_Visual:'' @ ''  a tree '' @ '']'' @ '' and [CONCEPTUAL_VISUAL: open'')
     = conceptual_prompts ''See [1], then '' @ trim ''  a tree '' # conceptual_prompts '' and [CONCEPTUAL_VISUAL: open''"
    by blast
  from directive_yields_one_request[where t = "''[conceptual_visual:''" and rest = "'' never closed''"
      and pre = "''[CONCEPTUAL_VISUAL: a] then ''"] t2 r
  have 2: "conceptual_prompts (''[CONCEPTUAL_VISUAL: a] then '' @ ''[conceptual_visual:'' @ '' never closed'')
     = conceptual_prompts ''[CONCEPTUAL_VISUAL: a] then ''"
    by blast
  from 1 2 show ?thesis by (simp only: e1 e2 e3 e4 append_Nil)
qed

text \<open>
  The claim as stated fails for a tag whose own closing bracket is missing while a bracket
  follows later in the text: the content runs on to that bracket. A complete directive
  that stands inside such a content yields no request of its own (no prompt \<open>b\<close>), and
  the tag without its bracket does yield one.
\<close>

theorem unclosed_tag_takes_next_bracket_counterexample:
  "conceptual_prompts ''[CONCEPTUAL_VISUAL: a [CONCEPTUAL_VISUAL: b]'' = [''a [CONCEPTUAL_VISUAL: b'']
   \<and> ''b'' \<notin> set (conceptual_prompts ''[CONCEPTUAL_VISUAL: a [CONCEPTUAL_VISUAL: b]'')
   \<and> conceptual_prompts ''[CONCEPTUAL_VISUAL: a cube. See [1] for more'' = [''a cube. See [1'']"
  by code_simp

section \<open>One fenced region\<close>

lemma lit_fence_fence: "lit_ci ''```'' k (''```'' @ s) = k s"
  by simp

lemma lit_fence_None: "\<not> prefix ''```'' s \<Longrightarrow> lit_ci ''```'' k s = None"
proof (cases "lit_ci ''```'' k s")
  case None then show ?thesis .
next
  case (Some r)
  assume n: "\<not> prefix ''```'' s"
  from Some obtain s' where "s = ''```'' @ s'" unfolding lit_fence_iff by blast
  then have "prefix ''```'' s" by (simp only: prefixI)
  with n show ?thesis by blast
qed

text \<open>A fence that begins inside \<open>y\<close> and closes with the fence behind \<open>y\<close> begins inside \<open>y\<close> followed by two backquotes.\<close>

lemma prefix_fence_short:
  assumes "y \<noteq> []" "prefix ''```'' (y @ ''```'' @ post)"
  shows "prefix ''```'' (y @ ''``'')"
proof -
  from assms(1) obtain a y1 where y: "y = a # y1" by (cases y) auto
  show ?thesis
  proof (cases y1)
    case Nil
    with y assms(2) show ?thesis by auto
  next
    case y1: (Cons b y2)
    show ?thesis
    proof (cases y2)
      case Nil
      with y y1 assms(2) show ?thesis by auto
    next
      case (Cons c y3)
      with y y1 assms(2) show ?thesis by auto
    qed
  qed
qed

lemma no_fence_in_Cons:
  assumes "\<not> sublist ''```'' ((c # x) @ ''``'')"
  shows "\<not> prefix ''```'' (c # x @ ''```'' @ post)" "\<not> sublist ''```'' (x @ ''``'')"
proof -
  from assms have p: "\<not> prefix ''```'' ((c # x) @ ''``'')" and s: "\<not> sublist ''```'' (x @ ''``'')"
    by (auto simp add: sublist_Cons_right)
  from s show "\<not> sublist ''```'' (x @ ''``'')" .
  show "\<not> prefix ''```'' (c # x @ ''```'' @ post)"
  proof
    assume "prefix ''```'' (c # x @ ''```'' @ post)"
    then have "prefix ''```'' ((c # x) @ ''```'' @ post)" by (simp only: append_Cons)
    from prefix_fence_short[OF _ this] p show False by blast
  qed
qed

lemma lazy_to_fence:
  "\<not> sublist ''```'' (x @ ''``'') \<Longrightarrow>
     cap_star_lazy (\<lambda>c. True) (lit_ci ''```'' Some) (x @ ''```'' @ post) = Some (x, post)"
proof (induction x)
  case Nil
  have "lit_ci ''```'' Some (''```'' @ post) = Some post" by (rule lit_fence_fence)
  then show ?case by simp
next
  case (Cons c x)
  from no_fence_in_Cons(1)[OF Cons.prems, of post] no_fence_in_Cons(2)[OF Cons.prems]
  have n: "\<not> prefix ''```'' (c # x @ ''```'' @ post)" and s: "\<not> sublist ''```'' (x @ ''``'')" by blast+
  from lit_fence_None[OF n, of Some] Cons.IH[OF s] show ?case by simp
qed

lemma lazy_mono:
  assumes "isWhiteSpace c" "cap_star_lazy (\<lambda>c. True) (lit_ci ''```'' Some) s' = None"
  shows "cap_star_lazy (\<lambda>c. True) (lit_ci ''```'' Some) (c # s') = None"
proof -
  from assms(1) have "c \<noteq> CHR ''`''" by (rule ws_not_backtick)
  then have "lit_ci ''```'' Some (c # s') = None" by simp
  with assms(2) show ?thesis by simp
qed

lemma ws_star_lazy:
  "star_greedy isWhiteSpace (cap_star_lazy (\<lambda>c. True) (lit_ci ''```'' Some)) s =
     cap_star_lazy (\<lambda>c. True) (lit_ci ''```'' Some) (dropWhile isWhiteSpace s)"
  by (rule star_greedy_mono_eq) (rule lazy_mono)

lemma dropWhile_ws_fence:
  "dropWhile isWhiteSpace (x @ ''```'' @ post) = dropWhile isWhiteSpace x @ ''```'' @ post"
proof (induction x)
  case Nil
  have "\<not> isWhiteSpace CHR ''`''" by (simp add: isWhiteSpace_def)
  then show ?case by simp
next
  case (Cons c x) then show ?case by simp
qed

lemma no_fence_suffix:
  assumes "\<not> sublist ''```'' (x @ ''``'')" "suffix y x"
  shows "\<not> sublist ''```'' (y @ ''``'')"
proof
  assume a: "sublist ''```'' (y @ ''``'')"
  from assms(2) obtain z where "x = z @ y" by (auto simp: suffix_def)
  then have "suffix (y @ ''``'') (x @ ''``'')" by (simp add: suffix_def)
  with a have "sublist ''```'' (x @ ''``'')" by (meson sublist_order.order_trans suffix_imp_sublist)
  with assms(1) show False by blast
qed

lemma region_rest:
  assumes "\<not> sublist ''```'' (x @ ''``'')"
  shows "star_greedy isWhiteSpace (cap_star_lazy (\<lambda>c. True) (lit_ci ''```'' Some)) (x @ ''```'' @ post)
           = Some (dropWhile isWhiteSpace x, post)"
proof -
  have "suffix (dropWhile isWhiteSpace x) x" by (rule suffix_dropWhile)
  from no_fence_suffix[OF assms this] have "\<not> sublist ''```'' (dropWhile isWhiteSpace x @ ''``'')" .
  from lazy_to_fence[OF this, of post] show ?thesis
    by (simp only: ws_star_lazy dropWhile_ws_fence)
qed

lemma alt_ci_first:
  "alt_ci as k s =
     (case filter (\<lambda>a. ci_prefix a s \<and> k (drop (length a) s) \<noteq> None) as of
        [] \<Rightarrow> None
      | a # _ \<Rightarrow> k (drop (length a) s))"
  by (induction as) (auto simp: lit_ci_eq split: option.splits)

lemma hint_no_backtick:
  assumes "h \<in> set fence_hints" "i < length h"
  shows "canonicalize (h ! i) \<noteq> CHR ''`''"
proof -
  have "CHR ''`'' \<notin> set h" using assms(1) by (auto simp: fence_hints_def)
  with assms(2) have "h ! i \<noteq> CHR ''`''" by (metis nth_mem)
  then show ?thesis by simp
qed

lemma ci_prefix_length: "ci_prefix p s \<Longrightarrow> length p \<le> length s"
proof -
  assume "ci_prefix p s"
  then have "length (map canonicalize (take (length p) s)) = length (map canonicalize p)"
    by (simp only: ci_prefix_def)
  then show ?thesis by simp
qed

lemma hint_prefix_inner:
  assumes "h \<in> set fence_hints"
  shows "ci_prefix h (x @ ''```'' @ post) = ci_prefix h x"
proof (cases "length h \<le> length x")
  case True
  then show ?thesis by (rule ci_prefix_append_long)
next
  case False
  then have short: "length x < length h" by simp
  have "\<not> ci_prefix h (x @ ''```'' @ post)"
  proof
    assume "ci_prefix h (x @ ''```'' @ post)"
    then have "ci_prefix h (x @ CHR ''`'' # (''``'' @ post))" by simp
    from ci_prefix_straddle[OF this short] have "canonicalize (h ! length x) = CHR ''`''" by simp
    with hint_no_backtick[OF assms short] show False by blast
  qed
  moreover from short have "\<not> ci_prefix h x"
    using ci_prefix_length[of h x] by auto
  ultimately show ?thesis by simp
qed

lemma region_content_hints:
  "region_content x =
     dropWhile isWhiteSpace
       (case filter (\<lambda>h. ci_prefix h x) fence_hints of [] \<Rightarrow> x | h # _ \<Rightarrow> drop (length h) x)"
  by (simp only: region_content_def fence_hints_def)

lemma mermaidRegex_at_region:
  assumes "\<not> sublist ''```'' (x @ ''``'')"
  shows "mermaidRegex_at (''```'' @ x @ ''```'' @ post) = Some (region_content x, post)"
proof -
  let ?hints = "fence_hints"
  let ?K = "star_greedy isWhiteSpace (cap_star_lazy (\<lambda>c. True) (lit_ci ''```'' Some))"
  let ?s = "x @ ''```'' @ post"
  have k: "?K (drop n ?s) = Some (dropWhile isWhiteSpace (drop n x), post)" if "n \<le> length x" for n
  proof -
    have "suffix (drop n x) x" by (rule suffix_drop)
    from no_fence_suffix[OF assms this] have "\<not> sublist ''```'' (drop n x @ ''``'')" .
    from region_rest[OF this, of post] that show ?thesis by simp
  qed
  have f: "filter (\<lambda>a. ci_prefix a ?s \<and> ?K (drop (length a) ?s) \<noteq> None) ?hints
             = filter (\<lambda>h. ci_prefix h x) ?hints"
  proof (rule filter_cong[OF refl])
    fix h assume h: "h \<in> set ?hints"
    show "(ci_prefix h ?s \<and> ?K (drop (length h) ?s) \<noteq> None) = ci_prefix h x"
    proof (cases "ci_prefix h x")
      case True
      then have "length h \<le> length x" by (rule ci_prefix_length)
      from k[OF this] True hint_prefix_inner[OF h, of x post] show ?thesis by simp
    next
      case False
      with hint_prefix_inner[OF h, of x post] show ?thesis by simp
    qed
  qed
  have "opt_alt_ci ?hints ?K ?s = Some (region_content x, post)"
  proof (cases "filter (\<lambda>h. ci_prefix h x) ?hints")
    case Nil
    with f have "alt_ci ?hints ?K ?s = None" by (simp only: alt_ci_first list.case)
    moreover from k[of 0] have "?K ?s = Some (dropWhile isWhiteSpace x, post)" by simp
    ultimately show ?thesis using Nil by (simp add: opt_alt_ci_def region_content_hints)
  next
    case (Cons h hs)
    then have "h \<in> set (filter (\<lambda>h. ci_prefix h x) ?hints)" by simp
    then have "ci_prefix h x" by simp
    then have "length h \<le> length x" by (rule ci_prefix_length)
    from k[OF this] have kh: "?K (drop (length h) ?s) = Some (dropWhile isWhiteSpace (drop (length h) x), post)" .
    from f Cons have "alt_ci ?hints ?K ?s = ?K (drop (length h) ?s)" by (simp only: alt_ci_first list.case)
    with kh Cons show ?thesis by (simp add: opt_alt_ci_def region_content_hints)
  qed
  then show ?thesis unfolding mermaidRegex_at_def by (simp only: lit_fence_fence)
qed

lemma mermaid_exec_skip:
  assumes "\<not> sublist ''```'' (pre @ ''``'')"
  shows "leftmost mermaidRegex_at (pre @ ''```'' @ s) = leftmost mermaidRegex_at (''```'' @ s)"
  using assms
proof (induction pre)
  case Nil then show ?case by simp
next
  case (Cons c pre)
  from no_fence_in_Cons(1)[OF Cons.prems, of s] no_fence_in_Cons(2)[OF Cons.prems]
  have n: "\<not> prefix ''```'' (c # pre @ ''```'' @ s)" and p: "\<not> sublist ''```'' (pre @ ''``'')" by blast+
  from n have "mermaidRegex_at (c # pre @ ''```'' @ s) = None"
    unfolding mermaidRegex_at_def by (rule lit_fence_None)
  with Cons.IH[OF p] show ?case by simp
qed

lemma fenced_regions_block:
  assumes "\<not> sublist ''```'' (pre @ ''``'')" "\<not> sublist ''```'' (x @ ''``'')"
  shows "fenced_regions (pre @ ''```'' @ x @ ''```'' @ post) = region_content x # fenced_regions post"
proof -
  from mermaidRegex_at_region[OF assms(2), of post]
  have "leftmost mermaidRegex_at (''```'' @ x @ ''```'' @ post) = Some (region_content x, post)" by simp
  with mermaid_exec_skip[OF assms(1), of "x @ ''```'' @ post"]
  have "leftmost mermaidRegex_at (pre @ ''```'' @ x @ ''```'' @ post) = Some (region_content x, post)" by simp
  then show ?thesis by (subst fenced_regions.simps) simp
qed


section \<open>The regions found by plain search\<close>

lemma split_at_fence_SomeD:
  "split_at_fence s = Some (a, b) \<Longrightarrow> s = a @ ''```'' @ b \<and> \<not> sublist ''```'' (a @ ''``'')"
proof (induction s arbitrary: a b)
  case Nil then show ?case by simp
next
  case (Cons c cs)
  show ?case
  proof (cases "prefix ''```'' (c # cs)")
    case True
    with Cons.prems have "Some ([], drop 3 (c # cs)) = Some (a, b)"
      by (simp only: split_at_fence.simps if_True)
    then have a: "a = []" and b: "b = drop 3 (c # cs)" by simp_all
    from True obtain zs where z: "c # cs = ''```'' @ zs" by (auto simp: prefix_def)
    then have "drop 3 (c # cs) = zs" by simp
    with z a b have "c # cs = a @ ''```'' @ b" by simp
    moreover have "\<not> sublist ''```'' (a @ ''``'')" unfolding a
      by (auto simp add: sublist_Cons_right)
    ultimately show ?thesis by blast
  next
    case False
    with Cons.prems have "map_option (\<lambda>(a, b). (c # a, b)) (split_at_fence cs) = Some (a, b)"
      by (simp only: split_at_fence.simps if_False)
    then obtain a' where s': "split_at_fence cs = Some (a', b)" and a: "a = c # a'"
      by auto
    from Cons.IH[OF s'] have cs: "cs = a' @ ''```'' @ b" and n: "\<not> sublist ''```'' (a' @ ''``'')"
      by blast+
    from cs a have 1: "c # cs = a @ ''```'' @ b" by simp
    have "\<not> prefix ''```'' (a @ ''``'')"
    proof
      assume "prefix ''```'' (a @ ''``'')"
      then have "prefix ''```'' ((a @ ''``'') @ CHR ''`'' # b)" by (rule prefix_prefix)
      with 1 False show False by simp
    qed
    with n a have "\<not> sublist ''```'' (a @ ''``'')" by (simp add: sublist_Cons_right)
    with 1 show ?thesis by blast
  qed
qed

lemma split_at_fence_NoneD: "split_at_fence s = None \<Longrightarrow> \<not> sublist ''```'' s"
proof (induction s)
  case Nil then show ?case by simp
next
  case (Cons c cs)
  then show ?case by (auto simp add: sublist_Cons_right split: if_splits)
qed

termination regions_of
proof (relation "measure length")
  show "wf (measure length)" by simp
next
  fix s :: string and x2 x y x2a xa ya
  assume 1: "split_at_fence s = Some x2" "(x, y) = x2"
     and 2: "split_at_fence y = Some x2a" "(xa, ya) = x2a"
  from 1 have "split_at_fence s = Some (x, y)" by simp
  from split_at_fence_SomeD[OF this] have s: "s = x @ ''```'' @ y" by blast
  from 2 have "split_at_fence y = Some (xa, ya)" by simp
  from split_at_fence_SomeD[OF this] have y: "y = xa @ ''```'' @ ya" by blast
  from s y show "(ya, s) \<in> measure length" by simp
qed

declare regions_of.simps [simp del]

lemma no_region_after_open:
  assumes "\<not> sublist ''```'' r"
  shows "leftmost mermaidRegex_at (''```'' @ r) = None"
proof (rule no_fence_pair_no_region, rule notI)
  assume "\<exists>a b c. ''```'' @ r = a @ ''```'' @ b @ ''```'' @ c"
  then obtain a b c where e: "''```'' @ r = a @ ''```'' @ b @ ''```'' @ c" by blast
  have "3 \<le> length (a @ ''```'' @ b)" by simp
  then have "drop 3 ((a @ ''```'' @ b) @ ''```'' @ c) = drop 3 (a @ ''```'' @ b) @ ''```'' @ c"
    by (simp only: drop_append diff_is_0_eq' drop_0)
  moreover from e have "drop 3 (''```'' @ r) = drop 3 ((a @ ''```'' @ b) @ ''```'' @ c)"
    by (simp only: append_assoc)
  moreover have "drop 3 (''```'' @ r) = r" by simp
  ultimately have "r = drop 3 (a @ ''```'' @ b) @ ''```'' @ c" by simp
  then have "sublist ''```'' r" unfolding sublist_def by blast
  with assms show False by blast
qed

lemma fenced_regions_eq_regions_of: "fenced_regions s = regions_of s"
proof (induction s rule: regions_of.induct)
  case (1 s)
  show ?case
  proof (cases "split_at_fence s")
    case None
    then have n: "\<not> sublist ''```'' s" by (rule split_at_fence_NoneD)
    have "leftmost mermaidRegex_at s = None"
    proof (rule no_fence_pair_no_region, rule notI)
      assume "\<exists>a b c. s = a @ ''```'' @ b @ ''```'' @ c"
      then have "sublist ''```'' s" unfolding sublist_def by blast
      with n show False by blast
    qed
    then have "fenced_regions s = []" by (subst fenced_regions.simps) simp
    moreover from None have "regions_of s = []" by (subst regions_of.simps) simp
    ultimately show ?thesis by simp
  next
    case (Some p)
    obtain pre r where p: "p = (pre, r)" by (cases p)
    with Some have sp: "split_at_fence s = Some (pre, r)" by simp
    from split_at_fence_SomeD[OF sp] have s: "s = pre @ ''```'' @ r"
      and npre: "\<not> sublist ''```'' (pre @ ''``'')" by blast+
    show ?thesis
    proof (cases "split_at_fence r")
      case None
      then have "\<not> sublist ''```'' r" by (rule split_at_fence_NoneD)
      then have "leftmost mermaidRegex_at (''```'' @ r) = None" by (rule no_region_after_open)
      with mermaid_exec_skip[OF npre, of r] s have "leftmost mermaidRegex_at s = None" by simp
      then have "fenced_regions s = []" by (subst fenced_regions.simps) simp
      moreover from sp None have "regions_of s = []" by (subst regions_of.simps) simp
      ultimately show ?thesis by simp
    next
      case (Some q)
      obtain between post where q: "q = (between, post)" by (cases q)
      with Some have sr: "split_at_fence r = Some (between, post)" by simp
      from split_at_fence_SomeD[OF sr] have r: "r = between @ ''```'' @ post"
        and nb: "\<not> sublist ''```'' (between @ ''``'')" by blast+
      from "1.IH"[OF sp refl sr refl] have ih: "fenced_regions post = regions_of post" .
      from fenced_regions_block[OF npre nb, of post] s r
      have "fenced_regions s = region_content between # fenced_regions post" by simp
      moreover from sp sr have "regions_of s = region_content between # regions_of post"
        by (subst regions_of.simps) simp
      ultimately show ?thesis using ih by simp
    qed
  qed
qed

lemma regions_of_block:
  assumes "\<not> sublist ''```'' (pre @ ''``'')" "\<not> sublist ''```'' (between @ ''``'')"
  shows "regions_of (pre @ ''```'' @ between @ ''```'' @ post) = region_content between # regions_of post"
  using fenced_regions_block[OF assms, of post] by (simp only: fenced_regions_eq_regions_of)



section \<open>The diagram candidates\<close>









section \<open>The order of the items\<close>

lemma generateImage_marks:
  assumes "generateImage env w prompt imageSize = (r, w')"
  shows "\<exists>evs. w' = w\<lparr>trace := trace w @ evs\<rparr> \<and> step_marks evs = [Inr prompt]"
proof -
  have m1: "mark (ImageRequest ''gemini-3-pro-image-preview'' prompt (Some imageSize)) = [Inr prompt]"
    by (simp add: mark_def)
  have m2: "mark (ImageRequest ''gemini-2.5-flash-image'' prompt None) = []"
    by (simp add: mark_def)
  from assms have
    "w' = w\<lparr>trace := trace w @ [ImageRequest ''gemini-3-pro-image-preview'' prompt (Some imageSize)]\<rparr>
     \<or> w' = w\<lparr>trace := trace w @ [ImageRequest ''gemini-3-pro-image-preview'' prompt (Some imageSize),
                                     ImageRequest ''gemini-2.5-flash-image'' prompt None]\<rparr>"
    by (auto simp: generateImage_def Let_def split: sum.splits if_splits)
  then show ?thesis
  proof
    assume "w' = w\<lparr>trace := trace w @ [ImageRequest ''gemini-3-pro-image-preview'' prompt (Some imageSize)]\<rparr>"
    moreover have "step_marks [ImageRequest ''gemini-3-pro-image-preview'' prompt (Some imageSize)] = [Inr prompt]"
      by (simp add: step_marks_def m1)
    ultimately show ?thesis by blast
  next
    assume "w' = w\<lparr>trace := trace w @ [ImageRequest ''gemini-3-pro-image-preview'' prompt (Some imageSize),
                                     ImageRequest ''gemini-2.5-flash-image'' prompt None]\<rparr>"
    moreover have "step_marks [ImageRequest ''gemini-3-pro-image-preview'' prompt (Some imageSize),
                                     ImageRequest ''gemini-2.5-flash-image'' prompt None] = [Inr prompt]"
      by (simp add: step_marks_def m1 m2)
    ultimately show ?thesis by blast
  qed
qed

lemma step_marks_append: "step_marks (a @ b) = step_marks a @ step_marks b"
  by (simp add: step_marks_def)

lemma conceptual_step_marks:
  assumes "conceptual_step env (w, newItems) c = (w', newItems')"
  shows "newItems' = newItems @ pushed_by (fst (image_call env w c))
         \<and> w' = fst (conceptual_step env (w, []) c)
         \<and> (\<exists>evs. w' = w\<lparr>isGeneratingImage := False, trace := trace w @ evs\<rparr>
                  \<and> step_marks evs = [Inl True, Inr (trim c), Inl False])"
proof -
  obtain r w2 where i: "image_call env w c = (r, w2)" by (cases "image_call env w c")
  from i[unfolded image_call_def] generateImage_marks obtain evs where
    w2: "w2 = w\<lparr>isGeneratingImage := True, trace := trace w @ SetIsGeneratingImage True # evs\<rparr>"
    and evs: "step_marks evs = [Inr (trim c)]"
    by fastforce
  let ?key = "(case r of Inl e \<Rightarrow> if is403 e \<and> window_aistudio env \<noteq> None then [OpenSelectKey] else []
                       | Inr img \<Rightarrow> [])"
  have k: "step_marks ?key = []"
    by (cases r) (simp_all add: step_marks_def mark_def)
  from conceptual_step_eq[OF i, of newItems] assms
  have w': "w' = w2\<lparr>isGeneratingImage := False, trace := trace w2 @ ?key @ [SetIsGeneratingImage False]\<rparr>"
    and n: "newItems' = newItems @ pushed_by r"
    by (simp_all add: pushed_by_def split: sum.splits option.splits)
  from conceptual_step_eq[OF i, of "[]"] w'
  have s: "w' = fst (conceptual_step env (w, []) c)" by simp
  from w' w2 have "w' = w\<lparr>isGeneratingImage := False,
                           trace := trace w @ (SetIsGeneratingImage True # evs @ ?key @ [SetIsGeneratingImage False])\<rparr>"
    by simp
  moreover have "step_marks (SetIsGeneratingImage True # evs @ ?key @ [SetIsGeneratingImage False])
                   = [Inl True, Inr (trim c), Inl False]"
    using evs k step_marks_append[of "[SetIsGeneratingImage True]" "evs @ ?key @ [SetIsGeneratingImage False]"]
      step_marks_append[of evs "?key @ [SetIsGeneratingImage False]"]
      step_marks_append[of ?key "[SetIsGeneratingImage False]"]
    by (simp add: step_marks_def mark_def)
  ultimately show ?thesis using n s i by auto
qed

lemma conceptual_loop_marks:
  "foldl (conceptual_step env) (w, newItems) ms = (w', newItems') \<Longrightarrow>
     newItems' = newItems @ concat (map pushed_by (image_outcomes env w ms))
     \<and> (\<exists>evs. trace w' = trace w @ evs
              \<and> step_marks evs = concat (map (\<lambda>c. [Inl True, Inr (trim c), Inl False]) ms))"
proof (induction ms arbitrary: w newItems)
  case Nil
  then show ?case by (simp add: step_marks_def)
next
  case (Cons c ms)
  obtain w1 items1 where s: "conceptual_step env (w, newItems) c = (w1, items1)"
    by (cases "conceptual_step env (w, newItems) c")
  from conceptual_step_marks[OF s] obtain e1 where
    i1: "items1 = newItems @ pushed_by (fst (image_call env w c))"
    and w1: "w1 = fst (conceptual_step env (w, []) c)"
    and t1: "trace w1 = trace w @ e1" and m1: "step_marks e1 = [Inl True, Inr (trim c), Inl False]"
    by auto
  from Cons.prems s have "foldl (conceptual_step env) (w1, items1) ms = (w', newItems')" by simp
  from Cons.IH[OF this] obtain e2 where
    i2: "newItems' = items1 @ concat (map pushed_by (image_outcomes env w1 ms))"
    and t2: "trace w' = trace w1 @ e2"
    and m2: "step_marks e2 = concat (map (\<lambda>c. [Inl True, Inr (trim c), Inl False]) ms)"
    by blast
  from i1 i2 w1 have "newItems' = newItems @ concat (map pushed_by (image_outcomes env w (c # ms)))" by simp
  moreover from t1 t2 have "trace w' = trace w @ (e1 @ e2)" by simp
  moreover from m1 m2 have "step_marks (e1 @ e2) = concat (map (\<lambda>c. [Inl True, Inr (trim c), Inl False]) (c # ms))"
    by (simp add: step_marks_append)
  ultimately show ?case by blast
qed

text \<open>
  C7. The items one call of \<open>extractVisualization\<close> appends to the feed are, in this
  order: the diagram candidates in document order, the inline image if there is one, and
  what the image calls of the directives pushed, in document order of the directives.
  The calls are made one after the other in that order: each is made in the state its
  predecessor left, and in the trace each request stands between the setting and the
  clearing of the flag, the requests following the order of the prompts.
\<close>

theorem items_keep_extraction_order:
  "appended_items w (extractVisualization env w t img) =
     map mermaid_item (filter qualifies (map trim (fenced_regions t)))
     @ inline_items img
     @ concat (map pushed_by (image_outcomes env w (conceptual_matchAll t)))
   \<and> step_marks (new_events w (extractVisualization env w t img)) =
       concat (map (\<lambda>p. [Inl True, Inr p, Inl False]) (conceptual_prompts t))"
proof -
  let ?n1 = "mermaid_loop t [] @ inline_items img"
  have n1: "(case img of None \<Rightarrow> mermaid_loop t []
             | Some i \<Rightarrow> if i \<noteq> [] then mermaid_loop t [] @ [image_item ImgId i] else mermaid_loop t []) = ?n1"
    by (simp add: inline_items_def split: option.splits)
  obtain w' items where f: "foldl (conceptual_step env) (w, ?n1) (conceptual_matchAll t) = (w', items)"
    by (cases "foldl (conceptual_step env) (w, ?n1) (conceptual_matchAll t)")
  from conceptual_loop_marks[OF f] obtain evs where
    items: "items = ?n1 @ concat (map pushed_by (image_outcomes env w (conceptual_matchAll t)))"
    and tr: "trace w' = trace w @ evs"
    and marks: "step_marks evs = concat (map (\<lambda>c. [Inl True, Inr (trim c), Inl False]) (conceptual_matchAll t))"
    by blast
  from conceptual_loop_frame[OF f] have vis: "visualization w' = visualization w" by auto
  have e: "extractVisualization env w t img =
             (if length items > 0
              then w'\<lparr>visualization := visualization w' @ items, activeTab := VISUALIZER, mobileView := WorkspaceView\<rparr>
              else w')"
    using f by (simp add: extractVisualization_def Let_def n1)
  have a: "appended_items w (extractVisualization env w t img) = items"
    unfolding e using vis by (simp add: appended_items_def)
  have b: "new_events w (extractVisualization env w t img) = evs"
    unfolding e using tr by (simp add: new_events_def)
  have c: "concat (map (\<lambda>c. [Inl True, Inr (trim c), Inl False]) (conceptual_matchAll t))
           = concat (map (\<lambda>p. [Inl True, Inr p, Inl False]) (conceptual_prompts t))"
    by (simp add: conceptual_prompts_def comp_def)
  from a b items marks c show ?thesis by (simp add: mermaid_loop_eq)
qed

theorem items_keep_extraction_order_witness:
  "appended_items (idle_world [])
     (extractVisualization (const_env (Inr (text_response ''ok'')) (Inr (image_response ''AAAA'')) None)
        (idle_world []) ''[CONCEPTUAL_VISUAL: a] then ```graph TD; A-->B``` and [CONCEPTUAL_VISUAL: b]'' (Some ''data:x''))
     = [mermaid_item ''graph TD; A-->B'', image_item ImgId ''data:x'',
        image_item ConceptId ''data:image/png;base64,AAAA'', image_item ConceptId ''data:image/png;base64,AAAA'']
   \<and> step_marks (new_events (idle_world [])
     (extractVisualization (const_env (Inr (text_response ''ok'')) (Inr (image_response ''AAAA'')) None)
        (idle_world []) ''[CONCEPTUAL_VISUAL: a] then ```graph TD; A-->B``` and [CONCEPTUAL_VISUAL: b]'' (Some ''data:x'')))
     = [Inl True, Inr ''a'', Inl False, Inl True, Inr ''b'', Inl False]"
proof -
  let ?env = "const_env (Inr (text_response ''ok'')) (Inr (image_response ''AAAA'')) None"
  let ?t = "''[CONCEPTUAL_VISUAL: a] then ```graph TD; A-->B``` and [CONCEPTUAL_VISUAL: b]''"
  have 1: "map mermaid_item (filter qualifies (map trim (fenced_regions ?t)))
           @ inline_items (Some ''data:x'')
           @ concat (map pushed_by (image_outcomes ?env (idle_world []) (conceptual_matchAll ?t)))
         = [mermaid_item ''graph TD; A-->B'', image_item ImgId ''data:x'',
            image_item ConceptId ''data:image/png;base64,AAAA'', image_item ConceptId ''data:image/png;base64,AAAA'']"
    by code_simp
  have 2: "concat (map (\<lambda>p. [Inl True, Inr p, Inl False]) (conceptual_prompts ?t))
         = [Inl True, Inr ''a'', Inl False, Inl True, Inr ''b'', Inl False]"
    by code_simp
  from items_keep_extraction_order[of "idle_world []" ?env ?t "Some ''data:x''"] show ?thesis
    by (simp only: 1 2)
qed

end
